theory Spec2Isabelle
  imports Main "HOL-Library.Word"
begin

section \<open>The FighterNFT contract: data model\<close>

text \<open>
  The embedding follows the Solidity contract \<open>FighterNFT\<close>. An \<open>address\<close> is a 160-bit
  word and \<open>address(0)\<close> is the word \<open>0\<close>; a \<open>uint32\<close> is a 32-bit word; an \<open>euint32\<close> is
  the 32-byte handle of an encrypted value. A \<open>uint256\<close> (token ids, counters, balances,
  array indices) is a natural number, and the checked arithmetic of Solidity 0.8 is
  written out: an increment at \<open>2 ^ 256 - 1\<close>, a decrement at \<open>0\<close> and an array access
  out of range revert with \<open>Panic\<close>. A Solidity mapping is a total function whose
  default value is zero (\<open>0\<close>, \<open>False\<close>, the empty array). Events are not modelled.
\<close>

type_synonym address = "160 word"
type_synonym uint32 = "32 word"
type_synonym euint32 = "256 word"

datatype error =
    FighterDoesNotExist nat
  | TokenAlreadyMinted nat
  | NotAuthorized
  | InvalidAddress
  | AttributeTotalMismatch
  | AttributeOutOfRange
  | Panic

record FighterAttributes =
  agility :: euint32
  strength :: euint32
  stamina :: euint32

record state =
  nextTokenId :: nat
  totalMinted :: nat
  owners :: "nat \<Rightarrow> address"
  balances :: "address \<Rightarrow> nat"
  tokenApprovals :: "nat \<Rightarrow> address"
  operatorApprovals :: "address \<Rightarrow> address \<Rightarrow> bool"
  fighterAttributes :: "nat \<Rightarrow> FighterAttributes"
  ownedTokens :: "address \<Rightarrow> nat list"
  ownedTokensIndex :: "nat \<Rightarrow> nat"
  acl :: "(euint32 \<times> address) set"

definition max_uint256 :: nat where
  "max_uint256 = 2 ^ 256 - 1"

definition TOTAL_ATTRIBUTE_POINTS :: uint32 where
  "TOTAL_ATTRIBUTE_POINTS = 10"

text \<open>The state after deployment: \<open>_nextTokenId = 1\<close>, everything else zero.\<close>

definition init :: state where
  "init = \<lparr> nextTokenId = 1, totalMinted = 0, owners = (\<lambda>_. 0), balances = (\<lambda>_. 0),
            tokenApprovals = (\<lambda>_. 0), operatorApprovals = (\<lambda>_ _. False),
            fighterAttributes = (\<lambda>_. \<lparr> agility = 0, strength = 0, stamina = 0 \<rparr>),
            ownedTokens = (\<lambda>_. []), ownedTokensIndex = (\<lambda>_. 0), acl = {} \<rparr>"

section \<open>The access-control list of the encryption library\<close>

text \<open>
  Modelled from the spec: the library calls \<open>FHE.allow\<close>, \<open>FHE.allowThis\<close> and
  \<open>FHE.asEuint32\<close> are not part of the repository. Following the spec's
  AccessGrantEngine, a grant is an idempotent insertion into a set of pairs of a handle
  and a grantee, there is no removal, and \<open>canRead\<close> is membership. Following the spec's
  EncryptionCollaborator (\<open>encrypt(u32 value) -> Handle\<close>, pure and deterministic), the
  encryption \<open>FHE.asEuint32\<close> is a parameter \<open>enc\<close> of type \<open>uint32 \<Rightarrow> euint32\<close> of
  every operation that encrypts; nothing else is assumed about it. The address of the
  contract itself (\<open>address(this)\<close>, the spec's service identity) is the parameter
  \<open>this\<close>.
\<close>

definition FHE_allow :: "euint32 \<Rightarrow> address \<Rightarrow> state \<Rightarrow> state" where
  "FHE_allow h account s = s\<lparr> acl := insert (h, account) (acl s) \<rparr>"

definition FHE_allowThis :: "address \<Rightarrow> euint32 \<Rightarrow> state \<Rightarrow> state" where
  "FHE_allowThis this h s = FHE_allow h this s"

definition canRead :: "state \<Rightarrow> euint32 \<Rightarrow> address \<Rightarrow> bool" where
  "canRead s h requester \<longleftrightarrow> (h, requester) \<in> acl s"

section \<open>Attribute validation\<close>

text \<open>
  \<open>_validateDistribution\<close>: the range check comes first, then the checked 32-bit sum is
  compared with the total. The two additions are checked: a sum of \<open>2 ^ 32\<close> or more
  reverts with \<open>Panic\<close>.
\<close>

definition checked_add32 :: "uint32 \<Rightarrow> uint32 \<Rightarrow> error + uint32" where
  "checked_add32 x y = (if unat x + unat y < 2 ^ 32 then Inr (x + y) else Inl Panic)"

definition validateDistribution :: "uint32 \<Rightarrow> uint32 \<Rightarrow> uint32 \<Rightarrow> error + unit" where
  "validateDistribution agilityP strengthP staminaP =
     (if agilityP > TOTAL_ATTRIBUTE_POINTS \<or> strengthP > TOTAL_ATTRIBUTE_POINTS
         \<or> staminaP > TOTAL_ATTRIBUTE_POINTS
      then Inl AttributeOutOfRange
      else case checked_add32 agilityP strengthP of
             Inl e \<Rightarrow> Inl e
           | Inr partial \<Rightarrow>
               (case checked_add32 partial staminaP of
                  Inl e \<Rightarrow> Inl e
                | Inr points \<Rightarrow>
                    if points \<noteq> TOTAL_ATTRIBUTE_POINTS then Inl AttributeTotalMismatch
                    else Inr ()))"

definition createAttributes ::
  "(uint32 \<Rightarrow> euint32) \<Rightarrow> uint32 \<Rightarrow> uint32 \<Rightarrow> uint32 \<Rightarrow> error + FighterAttributes" where
  "createAttributes enc agilityP strengthP staminaP =
     (case validateDistribution agilityP strengthP staminaP of
        Inl e \<Rightarrow> Inl e
      | Inr _ \<Rightarrow> Inr \<lparr> agility = enc agilityP, strength = enc strengthP,
                       stamina = enc staminaP \<rparr>)"

section \<open>Ownership bookkeeping\<close>

definition exists_token :: "state \<Rightarrow> nat \<Rightarrow> bool" where
  "exists_token s tokenId \<longleftrightarrow> owners s tokenId \<noteq> 0"

definition isApprovedOrOwner :: "state \<Rightarrow> address \<Rightarrow> nat \<Rightarrow> address \<Rightarrow> bool" where
  "isApprovedOrOwner s spender tokenId owner \<longleftrightarrow>
     spender = owner \<or> tokenApprovals s tokenId = spender \<or> operatorApprovals s owner spender"

definition allowContract :: "address \<Rightarrow> FighterAttributes \<Rightarrow> state \<Rightarrow> state" where
  "allowContract this attributes s =
     FHE_allowThis this (stamina attributes)
       (FHE_allowThis this (strength attributes)
         (FHE_allowThis this (agility attributes) s))"

definition allowViewer_internal :: "FighterAttributes \<Rightarrow> address \<Rightarrow> state \<Rightarrow> state" where
  "allowViewer_internal attributes viewer s =
     FHE_allow (stamina attributes) viewer
       (FHE_allow (strength attributes) viewer
         (FHE_allow (agility attributes) viewer s))"

text \<open>
  The first half of \<open>_beforeTokenTransfer\<close>: the swap-remove of \<open>tokenId\<close> from the array
  of \<open>from\<close>. \<open>length - 1\<close> on an empty array, the write at \<open>tokenIndex\<close> out of range and
  \<open>pop\<close> on an empty array revert with \<open>Panic\<close>.
\<close>

definition removeTokenFromOwner :: "address \<Rightarrow> nat \<Rightarrow> state \<Rightarrow> error + state" where
  "removeTokenFromOwner from tokenId s =
     (if length (ownedTokens s from) = 0 then Inl Panic
      else
        let lastIndex = length (ownedTokens s from) - 1;
            tokenIndex = ownedTokensIndex s tokenId
        in case (if tokenIndex \<noteq> lastIndex
                 then (let lastTokenId = ownedTokens s from ! lastIndex
                       in if tokenIndex < length (ownedTokens s from)
                          then Inr (s\<lparr> ownedTokens := (ownedTokens s)
                                          (from := (ownedTokens s from)[tokenIndex := lastTokenId]),
                                        ownedTokensIndex := (ownedTokensIndex s)
                                          (lastTokenId := tokenIndex) \<rparr>)
                          else Inl Panic)
                 else Inr s) of
             Inl e \<Rightarrow> Inl e
           | Inr s1 \<Rightarrow>
               Inr (s1\<lparr> ownedTokens := (ownedTokens s1)(from := butlast (ownedTokens s1 from)),
                        ownedTokensIndex := (ownedTokensIndex s1)(tokenId := 0) \<rparr>))"

text \<open>The second half: \<open>tokenId\<close> is appended to the array of \<open>to\<close>.\<close>

definition addTokenToOwner :: "address \<Rightarrow> nat \<Rightarrow> state \<Rightarrow> state" where
  "addTokenToOwner to tokenId s =
     s\<lparr> ownedTokensIndex := (ownedTokensIndex s)(tokenId := length (ownedTokens s to)),
        ownedTokens := (ownedTokens s)(to := ownedTokens s to @ [tokenId]) \<rparr>"

definition beforeTokenTransfer :: "address \<Rightarrow> address \<Rightarrow> nat \<Rightarrow> state \<Rightarrow> error + state" where
  "beforeTokenTransfer from to tokenId s =
     (if from = to then Inr s
      else case (if from \<noteq> 0 then removeTokenFromOwner from tokenId s else Inr s) of
             Inl e \<Rightarrow> Inl e
           | Inr s1 \<Rightarrow> Inr (if to \<noteq> 0 then addTokenToOwner to tokenId s1 else s1))"

definition afterTokenTransfer :: "address \<Rightarrow> address \<Rightarrow> nat \<Rightarrow> state \<Rightarrow> state" where
  "afterTokenTransfer from to tokenId s =
     (if from \<noteq> 0 \<and> to \<noteq> 0 then allowViewer_internal (fighterAttributes s tokenId) to s
      else s)"

definition mint :: "address \<Rightarrow> nat \<Rightarrow> state \<Rightarrow> error + state" where
  "mint to tokenId s =
     (if to = 0 then Inl InvalidAddress
      else if exists_token s tokenId then Inl (TokenAlreadyMinted tokenId)
      else case beforeTokenTransfer 0 to tokenId s of
             Inl e \<Rightarrow> Inl e
           | Inr s1 \<Rightarrow>
               if balances s1 to = max_uint256 then Inl Panic
               else
                 let s2 = s1\<lparr> balances := (balances s1)(to := balances s1 to + 1) \<rparr>;
                     s3 = s2\<lparr> owners := (owners s2)(tokenId := to) \<rparr>
                 in Inr (afterTokenTransfer 0 to tokenId s3))"

definition transfer :: "address \<Rightarrow> address \<Rightarrow> address \<Rightarrow> nat \<Rightarrow> state \<Rightarrow> error + state" where
  "transfer sender from to tokenId s =
     (if to = 0 then Inl InvalidAddress
      else if \<not> exists_token s tokenId then Inl (FighterDoesNotExist tokenId)
      else
        let owner = owners s tokenId
        in if owner \<noteq> from then Inl NotAuthorized
           else if \<not> isApprovedOrOwner s sender tokenId owner then Inl NotAuthorized
           else if to = 0 then Inl InvalidAddress
           else case beforeTokenTransfer from to tokenId s of
                  Inl e \<Rightarrow> Inl e
                | Inr s1 \<Rightarrow>
                    let s2 = s1\<lparr> tokenApprovals := (tokenApprovals s1)(tokenId := 0) \<rparr>
                    in if balances s2 from = 0 then Inl Panic
                       else
                         let s3 = s2\<lparr> balances := (balances s2)(from := balances s2 from - 1) \<rparr>
                         in if balances s3 to = max_uint256 then Inl Panic
                            else
                              let s4 = s3\<lparr> balances := (balances s3)(to := balances s3 to + 1) \<rparr>;
                                  s5 = s4\<lparr> owners := (owners s4)(tokenId := to) \<rparr>
                              in Inr (afterTokenTransfer from to tokenId s5))"

section \<open>The external functions\<close>

text \<open>
  Every state-changing function takes \<open>msg.sender\<close> as \<open>sender\<close> and returns either the
  error it reverts with or its result and the new state. A revert discards every
  write of the call, which \<open>call\<close> below makes explicit.
\<close>

definition mintFighter ::
  "(uint32 \<Rightarrow> euint32) \<Rightarrow> address \<Rightarrow> address \<Rightarrow> uint32 \<Rightarrow> uint32 \<Rightarrow> uint32 \<Rightarrow> state
     \<Rightarrow> error + nat \<times> state" where
  "mintFighter enc this sender agilityPoints strengthPoints staminaPoints s =
     (let tokenId = nextTokenId s
      in if nextTokenId s = max_uint256 then Inl Panic
         else
           let s1 = s\<lparr> nextTokenId := nextTokenId s + 1 \<rparr>
           in if totalMinted s1 = max_uint256 then Inl Panic
              else
                let s2 = s1\<lparr> totalMinted := totalMinted s1 + 1 \<rparr>
                in case createAttributes enc agilityPoints strengthPoints staminaPoints of
                     Inl e \<Rightarrow> Inl e
                   | Inr encryptedAttributes \<Rightarrow>
                       let s3 = s2\<lparr> fighterAttributes :=
                                      (fighterAttributes s2)(tokenId := encryptedAttributes) \<rparr>;
                           s4 = allowContract this (fighterAttributes s3 tokenId) s3;
                           s5 = allowViewer_internal (fighterAttributes s4 tokenId) sender s4
                       in case mint sender tokenId s5 of
                            Inl e \<Rightarrow> Inl e
                          | Inr s6 \<Rightarrow> Inr (tokenId, s6))"

definition updateAttributes ::
  "(uint32 \<Rightarrow> euint32) \<Rightarrow> address \<Rightarrow> address \<Rightarrow> nat \<Rightarrow> uint32 \<Rightarrow> uint32 \<Rightarrow> uint32 \<Rightarrow> state
     \<Rightarrow> error + state" where
  "updateAttributes enc this sender tokenId agilityPoints strengthPoints staminaPoints s =
     (if \<not> exists_token s tokenId then Inl (FighterDoesNotExist tokenId)
      else
        let owner = owners s tokenId
        in if \<not> isApprovedOrOwner s sender tokenId owner then Inl NotAuthorized
           else case createAttributes enc agilityPoints strengthPoints staminaPoints of
                  Inl e \<Rightarrow> Inl e
                | Inr encryptedAttributes \<Rightarrow>
                    let s1 = s\<lparr> fighterAttributes :=
                                  (fighterAttributes s)(tokenId := encryptedAttributes) \<rparr>;
                        s2 = allowContract this (fighterAttributes s1 tokenId) s1
                    in Inr (allowViewer_internal (fighterAttributes s2 tokenId) owner s2))"

definition allowViewer :: "address \<Rightarrow> nat \<Rightarrow> address \<Rightarrow> state \<Rightarrow> error + state" where
  "allowViewer sender tokenId viewer s =
     (if \<not> exists_token s tokenId then Inl (FighterDoesNotExist tokenId)
      else if viewer = 0 then Inl InvalidAddress
      else
        let owner = owners s tokenId
        in if \<not> isApprovedOrOwner s sender tokenId owner then Inl NotAuthorized
           else Inr (allowViewer_internal (fighterAttributes s tokenId) viewer s))"

definition approve :: "address \<Rightarrow> address \<Rightarrow> nat \<Rightarrow> state \<Rightarrow> error + state" where
  "approve sender to tokenId s =
     (if \<not> exists_token s tokenId then Inl (FighterDoesNotExist tokenId)
      else
        let owner = owners s tokenId
        in if sender \<noteq> owner \<and> \<not> operatorApprovals s owner sender then Inl NotAuthorized
           else Inr (s\<lparr> tokenApprovals := (tokenApprovals s)(tokenId := to) \<rparr>))"

definition setApprovalForAll :: "address \<Rightarrow> address \<Rightarrow> bool \<Rightarrow> state \<Rightarrow> error + state" where
  "setApprovalForAll sender operator approved s =
     Inr (s\<lparr> operatorApprovals :=
               (operatorApprovals s)(sender := (operatorApprovals s sender)(operator := approved)) \<rparr>)"

definition transferFrom :: "address \<Rightarrow> address \<Rightarrow> address \<Rightarrow> nat \<Rightarrow> state \<Rightarrow> error + state" where
  "transferFrom sender from to tokenId s = transfer sender from to tokenId s"

text \<open>
  \<open>safeTransferFrom\<close> (both overloads): \<open>_transfer\<close>, then \<open>_checkOnERC721Received\<close>,
  whose outcome (true when \<open>to\<close> has no code, otherwise whether the receiver's hook
  answers with the selector) is the parameter \<open>received\<close>. The hook runs after
  \<open>_transfer\<close> has finished and nothing guards against re-entrancy: whatever the
  receiver calls from it (an \<open>approve\<close> or a further \<open>transferFrom\<close>, say) is a call of
  its own, a further \<open>step\<close> below. This function gives the storage as \<open>_transfer\<close>
  leaves it and does not include those writes, so nothing is stated below about the
  storage at the end of \<open>safeTransferFrom\<close> beyond its being reachable.
\<close>

definition safeTransferFrom ::
  "bool \<Rightarrow> address \<Rightarrow> address \<Rightarrow> address \<Rightarrow> nat \<Rightarrow> state \<Rightarrow> error + state" where
  "safeTransferFrom received sender from to tokenId s =
     (case transfer sender from to tokenId s of
        Inl e \<Rightarrow> Inl e
      | Inr s1 \<Rightarrow> if \<not> received then Inl NotAuthorized else Inr s1)"

subsection \<open>Views\<close>

definition totalSupply :: "state \<Rightarrow> nat" where
  "totalSupply s = totalMinted s"

definition balanceOf :: "state \<Rightarrow> address \<Rightarrow> error + nat" where
  "balanceOf s owner = (if owner = 0 then Inl InvalidAddress else Inr (balances s owner))"

definition ownerOf :: "state \<Rightarrow> nat \<Rightarrow> error + address" where
  "ownerOf s tokenId =
     (if \<not> exists_token s tokenId then Inl (FighterDoesNotExist tokenId)
      else Inr (owners s tokenId))"

definition getApproved :: "state \<Rightarrow> nat \<Rightarrow> error + address" where
  "getApproved s tokenId =
     (if \<not> exists_token s tokenId then Inl (FighterDoesNotExist tokenId)
      else Inr (tokenApprovals s tokenId))"

definition isApprovedForAll :: "state \<Rightarrow> address \<Rightarrow> address \<Rightarrow> bool" where
  "isApprovedForAll s owner operator = operatorApprovals s owner operator"

definition fightersOf :: "state \<Rightarrow> address \<Rightarrow> nat list" where
  "fightersOf s owner = ownedTokens s owner"


text \<open>The three handles currently stored for a token.\<close>

definition currentHandles :: "state \<Rightarrow> nat \<Rightarrow> euint32 set" where
  "currentHandles s tokenId =
     {agility (fighterAttributes s tokenId), strength (fighterAttributes s tokenId),
      stamina (fighterAttributes s tokenId)}"


subsection \<open>Calls and reachable states\<close>

text \<open>
  The storage after a call: a call that reverts leaves the storage as it was, a call
  that returns commits its writes. \<open>call\<close> is for the functions without a result,
  \<open>call_returning\<close> for \<open>mintFighter\<close>.
\<close>

definition call :: "(state \<Rightarrow> error + state) \<Rightarrow> state \<Rightarrow> state" where
  "call f s = (case f s of Inl e \<Rightarrow> s | Inr s' \<Rightarrow> s')"

definition call_returning :: "(state \<Rightarrow> error + 'a \<times> state) \<Rightarrow> state \<Rightarrow> state" where
  "call_returning f s = (case f s of Inl e \<Rightarrow> s | Inr (r, s') \<Rightarrow> s')"

text \<open>A call returns, rather than reverts.\<close>

definition succeeds :: "error + 'a \<Rightarrow> bool" where
  "succeeds r = (case r of Inl e \<Rightarrow> False | Inr x \<Rightarrow> True)"

text \<open>One successful state-changing call, by any sender and with any arguments.\<close>

inductive step :: "(uint32 \<Rightarrow> euint32) \<Rightarrow> address \<Rightarrow> state \<Rightarrow> state \<Rightarrow> bool"
  for enc :: "uint32 \<Rightarrow> euint32" and this :: address where
  step_mintFighter:
    "mintFighter enc this sender a b c s = Inr (tokenId, s') \<Longrightarrow> step enc this s s'"
| step_updateAttributes:
    "updateAttributes enc this sender tokenId a b c s = Inr s' \<Longrightarrow> step enc this s s'"
| step_allowViewer:
    "allowViewer sender tokenId viewer s = Inr s' \<Longrightarrow> step enc this s s'"
| step_approve:
    "approve sender to tokenId s = Inr s' \<Longrightarrow> step enc this s s'"
| step_setApprovalForAll:
    "setApprovalForAll sender operator approved s = Inr s' \<Longrightarrow> step enc this s s'"
| step_transferFrom:
    "transferFrom sender from to tokenId s = Inr s' \<Longrightarrow> step enc this s s'"
| step_safeTransferFrom:
    "safeTransferFrom received sender from to tokenId s = Inr s' \<Longrightarrow> step enc this s s'"

inductive reachable :: "(uint32 \<Rightarrow> euint32) \<Rightarrow> address \<Rightarrow> state \<Rightarrow> bool"
  for enc :: "uint32 \<Rightarrow> euint32" and this :: address where
  reachable_init: "reachable enc this init"
| reachable_step: "reachable enc this s \<Longrightarrow> step enc this s s' \<Longrightarrow> reachable enc this s'"


text \<open>Any number of successful calls, one after the other.\<close>

inductive steps :: "(uint32 \<Rightarrow> euint32) \<Rightarrow> address \<Rightarrow> state \<Rightarrow> state \<Rightarrow> bool"
  for enc :: "uint32 \<Rightarrow> euint32" and this :: address where
  steps_refl: "steps enc this s s"
| steps_step: "steps enc this s s' \<Longrightarrow> step enc this s' s'' \<Longrightarrow> steps enc this s s''"

section \<open>The invariant of the ownership index\<close>

text \<open>
  What \<open>_beforeTokenTransfer\<close> leaves of an array \<open>xs\<close> when it removes the element at
  index \<open>i\<close>: the last element is written over it, unless it is the last itself, and the
  array shrinks by one.
\<close>

definition swap_remove :: "nat list \<Rightarrow> nat \<Rightarrow> nat list" where
  "swap_remove xs i =
     butlast (if i \<noteq> length xs - 1 then xs[i := xs ! (length xs - 1)] else xs)"

text \<open>
  The invariant of every reachable state: the arrays have no duplicates; an array holds
  exactly the tokens of its owner, and the one of \<open>address(0)\<close> is empty; the stored
  position of an existing token is its index in the array of its owner; the balance
  is the length of the array; the existing tokens are the ids from \<open>1\<close> up to the next
  id; and the two counters move together, below the largest \<open>uint256\<close>.
\<close>

definition wf_state :: "state \<Rightarrow> bool" where
  "wf_state s \<longleftrightarrow>
     (\<forall>a. distinct (ownedTokens s a)) \<and>
     (\<forall>a t. t \<in> set (ownedTokens s a) \<longleftrightarrow> owners s t = a \<and> a \<noteq> 0) \<and>
     (\<forall>t. owners s t \<noteq> 0 \<longrightarrow>
          ownedTokensIndex s t < length (ownedTokens s (owners s t)) \<and>
          ownedTokens s (owners s t) ! ownedTokensIndex s t = t) \<and>
     (\<forall>a. balances s a = length (ownedTokens s a)) \<and>
     (\<forall>t. owners s t \<noteq> 0 \<longleftrightarrow> 1 \<le> t \<and> t < nextTokenId s) \<and>
     nextTokenId s = totalMinted s + 1 \<and> nextTokenId s \<le> max_uint256"

text \<open>
  The stored position of a token is synchronised with the arrays: it is the index of
  the token in the array of its owner, where the token occurs once, and no other array
  holds the token.
\<close>

definition position_synced :: "state \<Rightarrow> nat \<Rightarrow> bool" where
  "position_synced s t \<longleftrightarrow>
     ownedTokensIndex s t < length (ownedTokens s (owners s t)) \<and>
     ownedTokens s (owners s t) ! ownedTokensIndex s t = t \<and>
     count_list (ownedTokens s (owners s t)) t = 1 \<and>
     (\<forall>a. a \<noteq> owners s t \<longrightarrow> t \<notin> set (ownedTokens s a))"

section \<open>A scenario\<close>

text \<open>
  Concrete inputs for the theorems below: two accounts, the contract's own address, an
  injective encryption, and the states of a run. Alice mints token 1 with \<open>(3, 4, 3)\<close>,
  grants Bob as a viewer, updates the token to \<open>(2, 5, 3)\<close>, mints tokens 2 and 3, and
  transfers token 1, the first of her three, to Bob.
\<close>

definition alice :: address where "alice = 1"
definition bob :: address where "bob = 2"
definition contractAddress :: address where "contractAddress = 256"

definition enc0 :: "uint32 \<Rightarrow> euint32" where
  "enc0 v = ucast v"

definition st1 :: state where
  "st1 = call_returning (mintFighter enc0 contractAddress alice 3 4 3) init"

definition st2 :: state where
  "st2 = call (allowViewer alice 1 bob) st1"

definition st3 :: state where
  "st3 = call (updateAttributes enc0 contractAddress alice 1 2 5 3) st2"

definition st4 :: state where
  "st4 = call_returning (mintFighter enc0 contractAddress alice 4 3 3) st3"

definition st5 :: state where
  "st5 = call_returning (mintFighter enc0 contractAddress alice 1 1 8) st4"

definition st6 :: state where
  "st6 = call (transferFrom alice alice bob 1) st5"

text \<open>
  Three side branches: Alice transfers token 1 to herself right after minting it; Alice
  updates token 1 to \<open>(2, 8, 0)\<close> instead of \<open>(2, 5, 3)\<close>; and, holding her three
  tokens, Alice approves Bob for token 1, who then transfers it from Alice to Alice.
\<close>

definition st1_self :: state where
  "st1_self = call (transferFrom alice alice alice 1) st1"


definition st5a :: state where
  "st5a = call (approve alice bob 1) st5"

definition st5b :: state where
  "st5b = call (transferFrom bob alice alice 1) st5a"

section \<open>Lemmas: the swap-remove on lists\<close>

lemma swap_remove_snoc:
  "i \<le> length ys \<Longrightarrow> swap_remove (ys @ [l]) i = (if i < length ys then ys[i := l] else ys)"
  by (auto simp: swap_remove_def list_update_append butlast_append nth_append)

lemma swap_remove_length: "xs \<noteq> [] \<Longrightarrow> length (swap_remove xs i) = length xs - 1"
  by (simp add: swap_remove_def)

lemma swap_remove_nth:
  "i < length xs \<Longrightarrow> j < length xs - 1 \<Longrightarrow>
   swap_remove xs i ! j = (if j = i then xs ! (length xs - 1) else xs ! j)"
  by (simp add: swap_remove_def nth_butlast)

lemma swap_remove_set:
  assumes "distinct xs" "i < length xs"
  shows "set (swap_remove xs i) = set xs - {xs ! i}"
proof (cases xs rule: rev_cases)
  case Nil
  with assms show ?thesis by simp
next
  case (snoc ys l)
  with assms have d: "distinct ys" "l \<notin> set ys" and i: "i \<le> length ys" by auto
  show ?thesis
  proof (cases "i < length ys")
    case True
    with d have "set (ys[i := l]) = insert l (set ys - {ys ! i})"
      by (simp add: set_update_distinct)
    with True d i snoc show ?thesis
      by (auto simp: swap_remove_snoc nth_append)
  next
    case False
    with i have "i = length ys" by simp
    with d snoc show ?thesis by (auto simp: swap_remove_snoc)
  qed
qed

lemma swap_remove_distinct:
  assumes "distinct xs" "i < length xs"
  shows "distinct (swap_remove xs i)"
proof (cases xs rule: rev_cases)
  case Nil
  with assms show ?thesis by simp
next
  case (snoc ys l)
  with assms have d: "distinct ys" "l \<notin> set ys" and i: "i \<le> length ys" by auto
  then show ?thesis using snoc
    by (auto simp: swap_remove_snoc intro!: distinct_list_update)
qed

section \<open>Lemmas: what each operation writes\<close>

lemma removeTokenFromOwner_eq:
  assumes "ownedTokensIndex s t < length (ownedTokens s from)"
  shows "removeTokenFromOwner from t s =
         Inr (s\<lparr> ownedTokens := (ownedTokens s)
                   (from := swap_remove (ownedTokens s from) (ownedTokensIndex s t)),
                 ownedTokensIndex :=
                   (if ownedTokensIndex s t \<noteq> length (ownedTokens s from) - 1
                    then (ownedTokensIndex s)
                           (ownedTokens s from ! (length (ownedTokens s from) - 1) := ownedTokensIndex s t)
                    else ownedTokensIndex s)(t := 0) \<rparr>)"
  using assms by (auto simp: removeTokenFromOwner_def swap_remove_def Let_def)

section \<open>Lemmas: every reachable state satisfies the invariant\<close>

lemma wf_init: "wf_state init"
  by (auto simp: wf_state_def init_def max_uint256_def)


lemma allowViewer_internal_fields [simp]:
  "acl (allowViewer_internal at v s) = acl s \<union> {(agility at, v), (strength at, v), (stamina at, v)}"
  "nextTokenId (allowViewer_internal at v s) = nextTokenId s"
  "totalMinted (allowViewer_internal at v s) = totalMinted s"
  "owners (allowViewer_internal at v s) = owners s"
  "balances (allowViewer_internal at v s) = balances s"
  "tokenApprovals (allowViewer_internal at v s) = tokenApprovals s"
  "operatorApprovals (allowViewer_internal at v s) = operatorApprovals s"
  "fighterAttributes (allowViewer_internal at v s) = fighterAttributes s"
  "ownedTokens (allowViewer_internal at v s) = ownedTokens s"
  "ownedTokensIndex (allowViewer_internal at v s) = ownedTokensIndex s"
  by (auto simp: allowViewer_internal_def FHE_allow_def)

lemma allowContract_fields [simp]:
  "acl (allowContract this at s) = acl s \<union> {(agility at, this), (strength at, this), (stamina at, this)}"
  "nextTokenId (allowContract this at s) = nextTokenId s"
  "totalMinted (allowContract this at s) = totalMinted s"
  "owners (allowContract this at s) = owners s"
  "balances (allowContract this at s) = balances s"
  "tokenApprovals (allowContract this at s) = tokenApprovals s"
  "operatorApprovals (allowContract this at s) = operatorApprovals s"
  "fighterAttributes (allowContract this at s) = fighterAttributes s"
  "ownedTokens (allowContract this at s) = ownedTokens s"
  "ownedTokensIndex (allowContract this at s) = ownedTokensIndex s"
  by (auto simp: allowContract_def FHE_allowThis_def FHE_allow_def)

lemma wf_owner_index:
  "wf_state s \<Longrightarrow> owners s t \<noteq> 0 \<Longrightarrow>
   ownedTokensIndex s t < length (ownedTokens s (owners s t)) \<and>
   ownedTokens s (owners s t) ! ownedTokensIndex s t = t"
  by (simp add: wf_state_def)

lemma transfer_fields:
  assumes wf: "wf_state s" and tr: "transfer sender from to t s = Inr s'"
  shows "owners s t = from" "from \<noteq> 0" "to \<noteq> 0" "isApprovedOrOwner s sender t from"
    "owners s' = (owners s)(t := to)"
    "tokenApprovals s' = (tokenApprovals s)(t := 0)"
    "acl s' = acl s \<union> {(agility (fighterAttributes s t), to), (strength (fighterAttributes s t), to),
                         (stamina (fighterAttributes s t), to)}"
    "nextTokenId s' = nextTokenId s" "totalMinted s' = totalMinted s"
    "operatorApprovals s' = operatorApprovals s" "fighterAttributes s' = fighterAttributes s"
    "from = to \<Longrightarrow> ownedTokens s' = ownedTokens s"
    "from = to \<Longrightarrow> ownedTokensIndex s' = ownedTokensIndex s"
    "from = to \<Longrightarrow> balances s' = balances s"
    "from \<noteq> to \<Longrightarrow> ownedTokens s' = (ownedTokens s)
        (from := swap_remove (ownedTokens s from) (ownedTokensIndex s t),
         to := ownedTokens s to @ [t])"
    "from \<noteq> to \<Longrightarrow> ownedTokensIndex s' =
        (if ownedTokensIndex s t \<noteq> length (ownedTokens s from) - 1
         then (ownedTokensIndex s)
                (ownedTokens s from ! (length (ownedTokens s from) - 1) := ownedTokensIndex s t)
         else ownedTokensIndex s)(t := length (ownedTokens s to))"
    "from \<noteq> to \<Longrightarrow> balances s' = (balances s)
        (from := balances s from - 1, to := balances s to + 1)"
proof -
  from tr have o: "owners s t = from" "from \<noteq> 0" "to \<noteq> 0" "isApprovedOrOwner s sender t from"
    by (auto simp: transfer_def Let_def exists_token_def split: if_splits)
  then show "owners s t = from" "from \<noteq> 0" "to \<noteq> 0" "isApprovedOrOwner s sender t from" by auto
  from wf_owner_index[OF wf, of t] o
  have ix: "ownedTokensIndex s t < length (ownedTokens s from)" by simp
  from wf ix have bal: "balances s from \<noteq> 0" by (auto simp: wf_state_def)
  note rm = removeTokenFromOwner_eq[OF ix]
  show "owners s' = (owners s)(t := to)"
    "tokenApprovals s' = (tokenApprovals s)(t := 0)"
    "acl s' = acl s \<union> {(agility (fighterAttributes s t), to), (strength (fighterAttributes s t), to),
                         (stamina (fighterAttributes s t), to)}"
    "nextTokenId s' = nextTokenId s" "totalMinted s' = totalMinted s"
    "operatorApprovals s' = operatorApprovals s" "fighterAttributes s' = fighterAttributes s"
    "from = to \<Longrightarrow> ownedTokens s' = ownedTokens s"
    "from = to \<Longrightarrow> ownedTokensIndex s' = ownedTokensIndex s"
    "from = to \<Longrightarrow> balances s' = balances s"
    "from \<noteq> to \<Longrightarrow> ownedTokens s' = (ownedTokens s)
        (from := swap_remove (ownedTokens s from) (ownedTokensIndex s t),
         to := ownedTokens s to @ [t])"
    "from \<noteq> to \<Longrightarrow> ownedTokensIndex s' =
        (if ownedTokensIndex s t \<noteq> length (ownedTokens s from) - 1
         then (ownedTokensIndex s)
                (ownedTokens s from ! (length (ownedTokens s from) - 1) := ownedTokensIndex s t)
         else ownedTokensIndex s)(t := length (ownedTokens s to))"
    "from \<noteq> to \<Longrightarrow> balances s' = (balances s)
        (from := balances s from - 1, to := balances s to + 1)"
    using tr o bal
    by (auto simp: transfer_def Let_def exists_token_def beforeTokenTransfer_def rm
        afterTokenTransfer_def addTokenToOwner_def split: if_splits)
qed


lemma wf_transfer:
  assumes wf: "wf_state s" and tr: "transfer sender from to t s = Inr s'"
  shows "wf_state s'"
proof (cases "from = to")
  case True
  note f = transfer_fields[OF wf tr]
  from f(1,2) True have "(owners s)(t := to) = owners s" by auto
  with wf f True show ?thesis by (simp add: wf_state_def)
next
  case ne: False
  note f = transfer_fields[OF wf tr]
  define xs where "xs = ownedTokens s from"
  define ys where "ys = ownedTokens s to"
  define i where "i = ownedTokensIndex s t"
  define l where "l = xs ! (length xs - 1)"
  from wf have dx: "distinct xs" and dy: "distinct ys"
    and mem: "\<And>a u. u \<in> set (ownedTokens s a) \<longleftrightarrow> owners s u = a \<and> a \<noteq> 0"
    and ix: "\<And>u. owners s u \<noteq> 0 \<Longrightarrow> ownedTokensIndex s u < length (ownedTokens s (owners s u))
                \<and> ownedTokens s (owners s u) ! ownedTokensIndex s u = u"
    and bal: "\<And>a. balances s a = length (ownedTokens s a)"
    by (auto simp: wf_state_def xs_def ys_def)
  from ix[of t] f(1,2) have i: "i < length xs" "xs ! i = t" by (auto simp: i_def xs_def)
  then have xne: "xs \<noteq> []" by auto
  have sx: "set (swap_remove xs i) = set xs - {t}" using swap_remove_set[OF dx i(1)] i by simp
  have dsx: "distinct (swap_remove xs i)" by (rule swap_remove_distinct[OF dx i(1)])
  have lsx: "length (swap_remove xs i) = length xs - 1" by (rule swap_remove_length[OF xne])
  have tny: "t \<notin> set ys" using mem[of t to] f(1) ne by (auto simp: ys_def)
  have lx: "l \<in> set xs" using xne by (auto simp: l_def)
  have ot: "ownedTokens s' = (ownedTokens s)(from := swap_remove xs i, to := ys @ [t])"
    using f(15)[OF ne] by (simp add: xs_def ys_def i_def)
  have oi: "ownedTokensIndex s' =
        (if i \<noteq> length xs - 1 then (ownedTokensIndex s)(l := i) else ownedTokensIndex s)
        (t := length ys)"
    using f(16)[OF ne] by (simp add: xs_def ys_def i_def l_def)
  have c1: "\<forall>a. distinct (ownedTokens s' a)"
    using wf dsx dy tny by (auto simp: ot wf_state_def)
  have c2: "\<forall>a u. u \<in> set (ownedTokens s' a) \<longleftrightarrow> owners s' u = a \<and> a \<noteq> 0"
    using mem f(1,2,3) ne sx by (auto simp: ot f(5) xs_def ys_def)
  have c3: "ownedTokensIndex s' u < length (ownedTokens s' (owners s' u)) \<and>
            ownedTokens s' (owners s' u) ! ownedTokensIndex s' u = u" if u: "owners s' u \<noteq> 0" for u
  proof (cases "u = t")
    case True
    then show ?thesis using ne by (simp add: ot oi f(5))
  next
    case ut: False
    with u have ou: "owners s u \<noteq> 0" "owners s' u = owners s u" by (auto simp: f(5))
    note iu = ix[OF ou(1)]
    show ?thesis
    proof (cases "owners s u = from")
      case uf: True
      with iu have ju: "ownedTokensIndex s u < length xs" "xs ! ownedTokensIndex s u = u"
        by (auto simp: xs_def)
      show ?thesis
      proof (cases "u = l")
        case True
        with ut i have "i \<noteq> length xs - 1" by (auto simp: l_def)
        with i True ut uf ne ou show ?thesis
          by (simp add: ot oi lsx swap_remove_nth l_def)
      next
        case False
        with ju have "ownedTokensIndex s u \<noteq> length xs - 1" by (auto simp: l_def)
        with ju have lt: "ownedTokensIndex s u < length xs - 1" by arith
        from ju i ut have "ownedTokensIndex s u \<noteq> i" by auto
        with lt show ?thesis using ju False ut uf ne ou i
          by (simp add: ot oi lsx swap_remove_nth)
      qed
    next
      case unf: False
      with mem[of l "from"] lx have ul: "u \<noteq> l" by (auto simp: xs_def)
      show ?thesis
      proof (cases "owners s u = to")
        case True
        with iu ul ut unf ou show ?thesis
          by (auto simp: ot oi ys_def nth_append)
      next
        case False
        with iu ul ut unf ou show ?thesis
          by (auto simp: ot oi)
      qed
    qed
  qed
  have c4: "\<forall>a. balances s' a = length (ownedTokens s' a)"
    using bal ne lsx by (auto simp: f(17)[OF ne] ot xs_def ys_def)
  have c5: "\<forall>u. owners s' u \<noteq> 0 \<longleftrightarrow> 1 \<le> u \<and> u < nextTokenId s'"
    using wf f(1,2,3) by (auto simp: f(5) f(8) wf_state_def)
  have c6: "nextTokenId s' = totalMinted s' + 1 \<and> nextTokenId s' \<le> max_uint256"
    using wf by (simp add: f(8) f(9) wf_state_def)
  from c1 c2 c3 c4 c5 c6 show ?thesis unfolding wf_state_def by blast
qed


lemma createAttributes_Inr:
  "createAttributes enc a b c = Inr at \<longleftrightarrow>
   validateDistribution a b c = Inr () \<and> at = \<lparr> agility = enc a, strength = enc b, stamina = enc c \<rparr>"
  by (auto simp: createAttributes_def split: sum.splits)

lemma mintFighter_fields:
  assumes m: "mintFighter enc this sender a b c s = Inr (tid, s')"
  shows "tid = nextTokenId s" "sender \<noteq> 0" "validateDistribution a b c = Inr ()"
    "owners s tid = 0" "nextTokenId s \<noteq> max_uint256"
    "nextTokenId s' = nextTokenId s + 1" "totalMinted s' = totalMinted s + 1"
    "owners s' = (owners s)(tid := sender)"
    "balances s' = (balances s)(sender := balances s sender + 1)"
    "ownedTokens s' = (ownedTokens s)(sender := ownedTokens s sender @ [tid])"
    "ownedTokensIndex s' = (ownedTokensIndex s)(tid := length (ownedTokens s sender))"
    "fighterAttributes s' = (fighterAttributes s)
        (tid := \<lparr> agility = enc a, strength = enc b, stamina = enc c \<rparr>)"
    "acl s' = acl s \<union> {(enc a, this), (enc b, this), (enc c, this)}
                    \<union> {(enc a, sender), (enc b, sender), (enc c, sender)}"
    "tokenApprovals s' = tokenApprovals s" "operatorApprovals s' = operatorApprovals s"
  using m
  by (auto simp: mintFighter_def Let_def mint_def beforeTokenTransfer_def addTokenToOwner_def
      afterTokenTransfer_def exists_token_def createAttributes_Inr
      split: if_splits sum.splits)

lemma wf_mintFighter:
  assumes wf: "wf_state s" and m: "mintFighter enc this sender a b c s = Inr (tid, s')"
  shows "wf_state s'"
proof -
  note f = mintFighter_fields[OF m]
  from wf have mem: "\<And>a u. u \<in> set (ownedTokens s a) \<longleftrightarrow> owners s u = a \<and> a \<noteq> 0"
    and ix: "\<And>u. owners s u \<noteq> 0 \<Longrightarrow> ownedTokensIndex s u < length (ownedTokens s (owners s u))
                \<and> ownedTokens s (owners s u) ! ownedTokensIndex s u = u"
    by (auto simp: wf_state_def)
  have tn: "tid \<notin> set (ownedTokens s a)" for a using mem[of tid a] f(4) by auto
  have c1: "\<forall>a. distinct (ownedTokens s' a)"
    using wf tn by (auto simp: f(10) wf_state_def)
  have c2: "\<forall>a u. u \<in> set (ownedTokens s' a) \<longleftrightarrow> owners s' u = a \<and> a \<noteq> 0"
    using mem f(2,4) by (auto simp: f(10) f(8))
  have c3: "ownedTokensIndex s' u < length (ownedTokens s' (owners s' u)) \<and>
            ownedTokens s' (owners s' u) ! ownedTokensIndex s' u = u" if u: "owners s' u \<noteq> 0" for u
  proof (cases "u = tid")
    case True
    then show ?thesis by (simp add: f(8,10,11))
  next
    case False
    with u have "owners s u \<noteq> 0" by (simp add: f(8))
    from ix[OF this] False show ?thesis by (auto simp: f(8,10,11) nth_append)
  qed
  have c4: "\<forall>a. balances s' a = length (ownedTokens s' a)"
    using wf by (auto simp: f(9,10) wf_state_def)
  have c5: "\<forall>u. owners s' u \<noteq> 0 \<longleftrightarrow> 1 \<le> u \<and> u < nextTokenId s'"
    using wf f(1,2) by (auto simp: f(6,8) wf_state_def)
  have c6: "nextTokenId s' = totalMinted s' + 1 \<and> nextTokenId s' \<le> max_uint256"
    using wf f(5) by (simp add: f(6,7) wf_state_def)
  from c1 c2 c3 c4 c5 c6 show ?thesis unfolding wf_state_def by blast
qed

lemma wf_state_frame:
  assumes "wf_state s" "ownedTokens s' = ownedTokens s" "ownedTokensIndex s' = ownedTokensIndex s"
    "owners s' = owners s" "balances s' = balances s" "nextTokenId s' = nextTokenId s"
    "totalMinted s' = totalMinted s"
  shows "wf_state s'"
  using assms by (simp add: wf_state_def)

lemma updateAttributes_fields:
  assumes u: "updateAttributes enc this sender tid a b c s = Inr s'"
  shows "owners s tid \<noteq> 0" "isApprovedOrOwner s sender tid (owners s tid)"
    "validateDistribution a b c = Inr ()"
    "fighterAttributes s' = (fighterAttributes s)
        (tid := \<lparr> agility = enc a, strength = enc b, stamina = enc c \<rparr>)"
    "acl s' = acl s \<union> {(enc a, this), (enc b, this), (enc c, this)}
                    \<union> {(enc a, owners s tid), (enc b, owners s tid), (enc c, owners s tid)}"
    "nextTokenId s' = nextTokenId s" "totalMinted s' = totalMinted s"
    "owners s' = owners s" "balances s' = balances s"
    "ownedTokens s' = ownedTokens s" "ownedTokensIndex s' = ownedTokensIndex s"
    "tokenApprovals s' = tokenApprovals s" "operatorApprovals s' = operatorApprovals s"
  using u
  by (auto simp: updateAttributes_def Let_def exists_token_def createAttributes_Inr
      split: if_splits sum.splits)

lemma allowViewer_fields:
  assumes u: "allowViewer sender tid viewer s = Inr s'"
  shows "owners s tid \<noteq> 0" "isApprovedOrOwner s sender tid (owners s tid)" "viewer \<noteq> 0"
    "acl s' = acl s \<union> {(agility (fighterAttributes s tid), viewer),
                        (strength (fighterAttributes s tid), viewer),
                        (stamina (fighterAttributes s tid), viewer)}"
    "nextTokenId s' = nextTokenId s" "totalMinted s' = totalMinted s"
    "owners s' = owners s" "balances s' = balances s"
    "ownedTokens s' = ownedTokens s" "ownedTokensIndex s' = ownedTokensIndex s"
    "tokenApprovals s' = tokenApprovals s" "operatorApprovals s' = operatorApprovals s"
    "fighterAttributes s' = fighterAttributes s"
  using u
  by (auto simp: allowViewer_def Let_def exists_token_def split: if_splits)

lemma approve_fields:
  assumes u: "approve sender to tid s = Inr s'"
  shows "owners s tid \<noteq> 0" "s' = s\<lparr> tokenApprovals := (tokenApprovals s)(tid := to) \<rparr>"
  using u by (auto simp: approve_def Let_def exists_token_def split: if_splits)

lemma safeTransferFrom_Inr:
  "safeTransferFrom received sender from to tid s = Inr s' \<longleftrightarrow>
   received \<and> transfer sender from to tid s = Inr s'"
  by (auto simp: safeTransferFrom_def split: sum.splits)

lemma wf_step:
  assumes "wf_state s" "step enc this s s'"
  shows "wf_state s'"
  using assms(2,1)
proof cases
  case (step_mintFighter sender a b c tokenId)
  with assms(1) show ?thesis by (blast intro: wf_mintFighter)
next
  case (step_updateAttributes sender tokenId a b c)
  from updateAttributes_fields[OF this] assms(1) show ?thesis
    by (auto intro: wf_state_frame)
next
  case (step_allowViewer sender tokenId viewer)
  from allowViewer_fields[OF this] assms(1) show ?thesis
    by (auto intro: wf_state_frame)
next
  case (step_approve sender to tokenId)
  from approve_fields[OF this] assms(1) show ?thesis
    by (auto intro: wf_state_frame)
next
  case (step_setApprovalForAll sender operator approved)
  with assms(1) show ?thesis
    by (auto simp: setApprovalForAll_def intro: wf_state_frame)
next
  case (step_transferFrom sender "from" to tokenId)
  with assms(1) show ?thesis by (auto simp: transferFrom_def intro: wf_transfer)
next
  case (step_safeTransferFrom received sender "from" to tokenId)
  with assms(1) show ?thesis by (auto simp: safeTransferFrom_Inr intro: wf_transfer)
qed

lemma reachable_wf: "reachable enc this s \<Longrightarrow> wf_state s"
  by (induction rule: reachable.induct) (auto intro: wf_init wf_step)


section \<open>Lemmas: when an operation succeeds\<close>

lemma owned_length_bound:
  assumes wf: "wf_state s"
  shows "length (ownedTokens s a) < nextTokenId s"
proof -
  from wf have d: "distinct (ownedTokens s a)"
    and sub: "set (ownedTokens s a) \<subseteq> {1..<nextTokenId s}"
    and pos: "1 \<le> nextTokenId s"
    by (auto simp: wf_state_def)
  from d have "length (ownedTokens s a) = card (set (ownedTokens s a))"
    by (simp add: distinct_card)
  also from sub have "\<dots> \<le> card {1..<nextTokenId s}" by (intro card_mono) auto
  finally show ?thesis using pos by simp
qed

lemma mintFighter_success:
  assumes wf: "wf_state s" and "sender \<noteq> 0" "nextTokenId s \<noteq> max_uint256"
    "validateDistribution a b c = Inr ()"
  shows "mintFighter enc this sender a b c s =
         Inr (nextTokenId s, call_returning (mintFighter enc this sender a b c) s)"
proof -
  from wf assms(3) have "totalMinted s \<noteq> max_uint256" "owners s (nextTokenId s) = 0"
    by (auto simp: wf_state_def)
  moreover from owned_length_bound[OF wf, of sender] wf
  have "balances s sender \<noteq> max_uint256" by (auto simp: wf_state_def)
  ultimately have "\<exists>s'. mintFighter enc this sender a b c s = Inr (nextTokenId s, s')"
    using assms(2-4)
    by (simp add: mintFighter_def Let_def createAttributes_def mint_def exists_token_def
        beforeTokenTransfer_def addTokenToOwner_def)
  then show ?thesis by (auto simp: call_returning_def)
qed

lemma transfer_success:
  assumes wf: "wf_state s" and "owners s t = from" "from \<noteq> 0" "to \<noteq> 0"
    "isApprovedOrOwner s sender t from"
  shows "transfer sender from to t s = Inr (call (transfer sender from to t) s)"
proof -
  from wf_owner_index[OF wf, of t] assms(2,3)
  have ix: "ownedTokensIndex s t < length (ownedTokens s from)" by auto
  with wf have b1: "balances s from \<noteq> 0" by (auto simp: wf_state_def)
  from owned_length_bound[OF wf, of to] wf
  have b2: "balances s to < max_uint256" by (auto simp: wf_state_def)
  have "\<exists>s'. transfer sender from to t s = Inr s'"
    using assms(2-5) b1 b2
    by (auto simp: transfer_def Let_def exists_token_def beforeTokenTransfer_def
        removeTokenFromOwner_eq[OF ix] addTokenToOwner_def)
  then show ?thesis by (auto simp: call_def)
qed

lemma updateAttributes_success:
  assumes "owners s t \<noteq> 0" "isApprovedOrOwner s sender t (owners s t)"
    "validateDistribution a b c = Inr ()"
  shows "updateAttributes enc this sender t a b c s =
         Inr (call (updateAttributes enc this sender t a b c) s)"
  using assms
  by (simp add: updateAttributes_def call_def Let_def exists_token_def createAttributes_def)

lemma allowViewer_success:
  assumes "owners s t \<noteq> 0" "viewer \<noteq> 0" "isApprovedOrOwner s sender t (owners s t)"
  shows "allowViewer sender t viewer s = Inr (call (allowViewer sender t viewer) s)"
  using assms by (simp add: allowViewer_def call_def Let_def exists_token_def)


section \<open>Lemmas: the states of the scenario\<close>

lemma valid_343: "validateDistribution 3 4 3 = Inr ()"
  by (simp add: validateDistribution_def checked_add32_def TOTAL_ATTRIBUTE_POINTS_def)

lemma valid_253: "validateDistribution 2 5 3 = Inr ()"
  by (simp add: validateDistribution_def checked_add32_def TOTAL_ATTRIBUTE_POINTS_def)

lemma valid_433: "validateDistribution 4 3 3 = Inr ()"
  by (simp add: validateDistribution_def checked_add32_def TOTAL_ATTRIBUTE_POINTS_def)

lemma valid_118: "validateDistribution 1 1 8 = Inr ()"
  by (simp add: validateDistribution_def checked_add32_def TOTAL_ATTRIBUTE_POINTS_def)

lemmas scenario_consts = init_def alice_def bob_def contractAddress_def enc0_def max_uint256_def
  isApprovedOrOwner_def

lemma st1_mint: "mintFighter enc0 contractAddress alice 3 4 3 init = Inr (1, st1)"
  using mintFighter_success[OF wf_init, of alice 3 4 3 enc0 contractAddress]
  by (simp add: st1_def valid_343 scenario_consts)

lemmas st1_f = mintFighter_fields(6-15)[OF st1_mint]

lemma st1_reachable: "reachable enc0 contractAddress st1"
  by (rule reachable_step[OF reachable_init step_mintFighter[OF st1_mint]])

lemma st2_allowViewer: "allowViewer alice 1 bob st1 = Inr st2"
  using allowViewer_success[of st1 1 bob alice]
  by (simp add: st2_def st1_f scenario_consts)

lemmas st2_f = allowViewer_fields(4-13)[OF st2_allowViewer]

lemma st2_reachable: "reachable enc0 contractAddress st2"
  by (rule reachable_step[OF st1_reachable step_allowViewer[OF st2_allowViewer]])

lemma st3_updateAttributes:
  "updateAttributes enc0 contractAddress alice 1 2 5 3 st2 = Inr st3"
  using updateAttributes_success[of st2 1 alice 2 5 3 enc0 contractAddress]
  by (simp add: st3_def st2_f st1_f valid_253 scenario_consts)

lemmas st3_f = updateAttributes_fields(4-13)[OF st3_updateAttributes]

lemma st3_reachable: "reachable enc0 contractAddress st3"
  by (rule reachable_step[OF st2_reachable step_updateAttributes[OF st3_updateAttributes]])

lemma st4_mint: "mintFighter enc0 contractAddress alice 4 3 3 st3 = Inr (2, st4)"
  using mintFighter_success[OF reachable_wf[OF st3_reachable], of alice 4 3 3 enc0 contractAddress]
  by (simp add: st4_def st3_f st2_f st1_f valid_433 scenario_consts)

lemmas st4_f = mintFighter_fields(6-15)[OF st4_mint]

lemma st4_reachable: "reachable enc0 contractAddress st4"
  by (rule reachable_step[OF st3_reachable step_mintFighter[OF st4_mint]])

lemma st5_mint: "mintFighter enc0 contractAddress alice 1 1 8 st4 = Inr (3, st5)"
  using mintFighter_success[OF reachable_wf[OF st4_reachable], of alice 1 1 8 enc0 contractAddress]
  by (simp add: st5_def st4_f st3_f st2_f st1_f valid_118 scenario_consts)

lemmas st5_f = mintFighter_fields(6-15)[OF st5_mint]

lemma st5_reachable: "reachable enc0 contractAddress st5"
  by (rule reachable_step[OF st4_reachable step_mintFighter[OF st5_mint]])

lemma transferFrom_eq: "transferFrom sender from to t = transfer sender from to t"
  by (rule ext) (simp add: transferFrom_def)

lemma st6_transfer: "transfer alice alice bob 1 st5 = Inr st6"
  using transfer_success[OF reachable_wf[OF st5_reachable], of 1 alice bob alice]
  by (simp add: st6_def transferFrom_eq st5_f st4_f st3_f st2_f st1_f scenario_consts)

lemma alice_neq_bob: "alice \<noteq> bob"
  by (simp add: alice_def bob_def)

lemmas st6_f = transfer_fields(5-11)[OF reachable_wf[OF st5_reachable] st6_transfer]
  transfer_fields(15-17)[OF reachable_wf[OF st5_reachable] st6_transfer alice_neq_bob]

lemma st6_reachable: "reachable enc0 contractAddress st6"
  by (rule reachable_step[OF st5_reachable step_transferFrom[of alice alice bob 1]])
     (simp only: transferFrom_def st6_transfer)

lemmas scenario = st6_f st5_f st4_f st3_f st2_f st1_f scenario_consts

lemma st6_arrays:
  "ownedTokens st6 alice = [3, 2]" "ownedTokens st6 bob = [1]"
  "ownedTokensIndex st6 3 = 0" "ownedTokensIndex st6 2 = 1" "ownedTokensIndex st6 1 = 0"
  "owners st6 1 = bob" "owners st6 2 = alice" "owners st6 3 = alice"
  "balances st6 alice = 2" "balances st6 bob = 1"
  "ownedTokens st5 alice = [1, 2, 3]"
  by (simp_all add: scenario swap_remove_def)


section \<open>Lemmas: consequences of the invariant\<close>

lemma count_list_distinct:
  "distinct xs \<Longrightarrow> x \<in> set xs \<Longrightarrow> count_list xs x = 1"
  by (induction xs) auto

lemma wf_position_synced:
  assumes wf: "wf_state s" and ex: "exists_token s t"
  shows "position_synced s t"
proof -
  from ex have o: "owners s t \<noteq> 0" by (simp add: exists_token_def)
  from wf have d: "distinct (ownedTokens s (owners s t))"
    and mem: "\<And>a. t \<in> set (ownedTokens s a) \<longleftrightarrow> owners s t = a \<and> a \<noteq> 0"
    by (auto simp: wf_state_def)
  from mem[of "owners s t"] o have "t \<in> set (ownedTokens s (owners s t))" by simp
  with d have "count_list (ownedTokens s (owners s t)) t = 1"
    by (rule count_list_distinct)
  with wf_owner_index[OF wf o] mem show ?thesis
    by (auto simp: position_synced_def)
qed

lemma wf_existing_tokens:
  assumes wf: "wf_state s"
  shows "{t. owners s t \<noteq> 0} = {1..<nextTokenId s}"
  using wf by (auto simp: wf_state_def)

lemma wf_owned_card:
  assumes wf: "wf_state s"
  shows "length (ownedTokens s a) = card {t \<in> {t. owners s t \<noteq> 0}. owners s t = a}"
proof -
  from wf have "distinct (ownedTokens s a)"
    and "set (ownedTokens s a) = {t \<in> {t. owners s t \<noteq> 0}. owners s t = a}"
    by (auto simp: wf_state_def)
  then show ?thesis by (metis distinct_card)
qed

section \<open>Lemmas: validation, failure and frame of the operations\<close>

lemma checked_add32_small:
  "unat x \<le> 20 \<Longrightarrow> unat y \<le> 10 \<Longrightarrow>
   \<exists>z. checked_add32 x y = Inr z \<and> unat z = unat x + unat y"
proof -
  assume a: "unat x \<le> 20" "unat y \<le> 10"
  then have lt: "unat x + unat y < 2 ^ LENGTH(32)" by simp
  then have "unat (x + y) = unat x + unat y" by (rule iffD1[OF unat_add_lem])
  with lt show ?thesis by (simp add: checked_add32_def)
qed

lemma validateDistribution_cases:
  "validateDistribution a b c =
     (if \<not> (unat a \<le> 10 \<and> unat b \<le> 10 \<and> unat c \<le> 10) then Inl AttributeOutOfRange
      else if unat a + unat b + unat c \<noteq> 10 then Inl AttributeTotalMismatch
      else Inr ())"
proof (cases "unat a \<le> 10 \<and> unat b \<le> 10 \<and> unat c \<le> 10")
  case False
  then show ?thesis
    by (auto simp: validateDistribution_def TOTAL_ATTRIBUTE_POINTS_def word_less_nat_alt)
next
  case True
  then have r: "\<not> (a > 10 \<or> b > 10 \<or> c > 10)"
    by (auto simp: word_less_nat_alt)
  from True obtain p where p: "checked_add32 a b = Inr p" "unat p = unat a + unat b"
    using checked_add32_small[of a b] by auto
  with True obtain q where q: "checked_add32 p c = Inr q" "unat q = unat a + unat b + unat c"
    using checked_add32_small[of p c] by auto
  have "q = 10 \<longleftrightarrow> unat q = 10"
    by (simp add: word_unat_eq_iff)
  with True r p q show ?thesis
    by (simp add: validateDistribution_def TOTAL_ATTRIBUTE_POINTS_def)
qed


lemma succeeds_simps [simp]: "succeeds (Inr x)" "\<not> succeeds (Inl e)"
  by (simp_all add: succeeds_def)

lemma mintFighter_invalid:
  assumes "nextTokenId s \<noteq> max_uint256" "totalMinted s \<noteq> max_uint256"
    "validateDistribution a b c = Inl e"
  shows "mintFighter enc this sender a b c s = Inl e"
  using assms by (simp add: mintFighter_def Let_def createAttributes_def)

lemma wf_totalMinted: "wf_state s \<Longrightarrow> totalMinted s \<noteq> max_uint256"
  by (auto simp: wf_state_def)

lemma updateAttributes_invalid:
  assumes "owners s t \<noteq> 0" "isApprovedOrOwner s sender t (owners s t)"
    "validateDistribution a b c = Inl e"
  shows "updateAttributes enc this sender t a b c s = Inl e"
  using assms by (simp add: updateAttributes_def Let_def createAttributes_def exists_token_def)

lemma state_eqI:
  fixes s s' :: state
  assumes "nextTokenId s' = nextTokenId s" "totalMinted s' = totalMinted s"
    "owners s' = owners s" "balances s' = balances s" "tokenApprovals s' = tokenApprovals s"
    "operatorApprovals s' = operatorApprovals s" "fighterAttributes s' = fighterAttributes s"
    "ownedTokens s' = ownedTokens s" "ownedTokensIndex s' = ownedTokensIndex s"
    "acl s' = acl s"
  shows "s' = s"
  using assms by (intro state.equality) simp_all

lemma currentHandles_times:
  "currentHandles s t \<times> {v} =
     {(agility (fighterAttributes s t), v), (strength (fighterAttributes s t), v),
      (stamina (fighterAttributes s t), v)}"
  by (auto simp: currentHandles_def)

lemma transfer_self_eq:
  assumes wf: "wf_state s" and tr: "transfer sender a a t s = Inr s'"
  shows "s' = s\<lparr> tokenApprovals := (tokenApprovals s)(t := 0),
                 acl := acl s \<union> currentHandles s t \<times> {a} \<rparr>"
proof -
  note f = transfer_fields[OF wf tr]
  from f(1) have "(owners s)(t := a) = owners s" by auto
  with f show ?thesis
    by (intro state_eqI) (simp_all add: currentHandles_times)
qed

lemma st1_self_transfer: "transferFrom alice alice alice 1 st1 = Inr st1_self"
  using transfer_success[OF reachable_wf[OF st1_reachable], of 1 alice alice alice]
  by (simp add: st1_self_def transferFrom_eq st1_f scenario_consts)

lemma approve_success:
  assumes "owners s t \<noteq> 0" "sender = owners s t \<or> operatorApprovals s (owners s t) sender"
  shows "approve sender to t s = Inr (call (approve sender to t) s)"
  using assms by (auto simp: approve_def call_def Let_def exists_token_def)

lemma st5a_approve: "approve alice bob 1 st5 = Inr st5a"
  using approve_success[of st5 1 alice bob]
  by (simp add: st5a_def st5_f st4_f st3_f st2_f st1_f scenario_consts)

lemma st5a_eq: "st5a = st5\<lparr> tokenApprovals := (tokenApprovals st5)(1 := bob) \<rparr>"
  by (rule approve_fields(2)[OF st5a_approve])

lemma st5a_reachable: "reachable enc0 contractAddress st5a"
  by (rule reachable_step[OF st5_reachable step_approve[OF st5a_approve]])

lemma st5b_transfer: "transferFrom bob alice alice 1 st5a = Inr st5b"
  using transfer_success[OF reachable_wf[OF st5a_reachable], of 1 alice alice bob]
  by (simp add: st5b_def transferFrom_eq st5a_eq st5_f st4_f st3_f st2_f st1_f scenario_consts)

lemma transfer_effects_aux:
  assumes wf: "wf_state s" and tr: "transfer sender from to t s = Inr s'"
  shows "canRead s' (agility (fighterAttributes s' t)) to \<and>
         canRead s' (strength (fighterAttributes s' t)) to \<and>
         canRead s' (stamina (fighterAttributes s' t)) to \<and>
         ownerOf s' t = Inr to \<and> getApproved s' t = Inr 0 \<and>
         count_list (fightersOf s' to) t = 1 \<and>
         (from \<noteq> to \<longrightarrow> t \<notin> set (fightersOf s' from))"
proof -
  note f = transfer_fields[OF wf tr]
  note wf' = wf_transfer[OF wf tr]
  have o: "owners s' t = to" by (simp add: f(5))
  with f(3) have ex: "exists_token s' t" by (simp add: exists_token_def)
  from wf_position_synced[OF wf' ex] o
  have c: "count_list (fightersOf s' to) t = 1"
    and n: "from \<noteq> to \<longrightarrow> t \<notin> set (fightersOf s' from)"
    by (auto simp: position_synced_def fightersOf_def)
  have r: "canRead s' (agility (fighterAttributes s' t)) to"
    "canRead s' (strength (fighterAttributes s' t)) to"
    "canRead s' (stamina (fighterAttributes s' t)) to"
    by (simp_all add: canRead_def f(7) f(11))
  have a: "ownerOf s' t = Inr to" "getApproved s' t = Inr 0"
    using ex o by (simp_all add: ownerOf_def getApproved_def f(6))
  from r a c n show ?thesis by (intro conjI)
qed

lemma validateDistribution_errors:
  "validateDistribution a b c = Inl e \<Longrightarrow> e = AttributeOutOfRange \<or> e = AttributeTotalMismatch"
  by (auto simp: validateDistribution_cases split: if_splits)

lemma mintFighter_error_cases:
  assumes "mintFighter enc this sender a b c s = Inl e"
  shows "e = AttributeOutOfRange \<or> e = AttributeTotalMismatch \<or>
         (e = Panic \<and> (nextTokenId s = max_uint256 \<or> totalMinted s = max_uint256 \<or>
                        balances s sender = max_uint256)) \<or>
         (e = InvalidAddress \<and> sender = 0) \<or>
         (e = TokenAlreadyMinted (nextTokenId s) \<and> owners s (nextTokenId s) \<noteq> 0)"
proof (cases "validateDistribution a b c")
  case (Inl e')
  with assms validateDistribution_errors[OF Inl] show ?thesis
    by (auto simp: mintFighter_def Let_def createAttributes_def split: if_splits)
next
  case (Inr u)
  with assms show ?thesis
    by (auto simp: mintFighter_def Let_def createAttributes_def mint_def exists_token_def
        beforeTokenTransfer_def addTokenToOwner_def split: if_splits)
qed

lemma removeTokenFromOwner_nextTokenId:
  "removeTokenFromOwner a t s = Inr s1 \<Longrightarrow> nextTokenId s1 = nextTokenId s"
  by (auto simp: removeTokenFromOwner_def Let_def split: if_splits)

lemma transfer_nextTokenId:
  "transfer sender from to t s = Inr s' \<Longrightarrow> nextTokenId s' = nextTokenId s"
  by (auto simp: transfer_def Let_def beforeTokenTransfer_def addTokenToOwner_def
      afterTokenTransfer_def dest!: removeTokenFromOwner_nextTokenId
      split: if_splits sum.splits)

lemma step_nextTokenId:
  assumes "step enc this s s'"
  shows "nextTokenId s \<le> nextTokenId s'"
  using assms
proof cases
  case (step_mintFighter sender a b c tokenId)
  from mintFighter_fields(6)[OF this] show ?thesis by simp
next
  case (step_updateAttributes sender tokenId a b c)
  from updateAttributes_fields(6)[OF this] show ?thesis by simp
next
  case (step_allowViewer sender tokenId viewer)
  from allowViewer_fields(5)[OF this] show ?thesis by simp
next
  case (step_approve sender to tokenId)
  from approve_fields(2)[OF this] show ?thesis by simp
next
  case (step_setApprovalForAll sender operator approved)
  then show ?thesis by (auto simp: setApprovalForAll_def)
next
  case (step_transferFrom sender "from" to tokenId)
  then show ?thesis by (auto simp: transferFrom_def dest: transfer_nextTokenId)
next
  case (step_safeTransferFrom received sender "from" to tokenId)
  then show ?thesis by (auto simp: safeTransferFrom_Inr dest: transfer_nextTokenId)
qed

lemma steps_nextTokenId:
  "steps enc this s s' \<Longrightarrow> nextTokenId s \<le> nextTokenId s'"
  by (induction rule: steps.induct) (auto dest: step_nextTokenId)

lemma st1_st3_steps: "steps enc0 contractAddress st1 st3"
  by (rule steps_step[OF steps_step[OF steps_refl step_allowViewer[OF st2_allowViewer]]
        step_updateAttributes[OF st3_updateAttributes]])





section \<open>Attribute validation (claim C1)\<close>

text \<open>
  Claim C1. For every triple of plaintext inputs the validation passes exactly when each
  input is at most 10 and the three sum to 10 (an unsigned input is never below 0); an
  input above 10 gives \<open>AttributeOutOfRange\<close>, inputs in range with another sum give
  \<open>AttributeTotalMismatch\<close>. \<open>mintFighter\<close>, called in a reachable state by a sender
  other than \<open>address(0)\<close> before the id counter is exhausted, succeeds exactly when the
  validation passes and otherwise fails with the error of the validation; so does
  \<open>updateAttributes\<close>, called for an existing token by an authorised sender. The
  witness has \<open>mint(5,3,3)\<close> failing with \<open>AttributeTotalMismatch\<close> and \<open>mint(4,3,3)\<close>
  succeeding.
\<close>

theorem attribute_validation:
  "(validateDistribution a b c = Inr () \<longleftrightarrow>
      a \<le> 10 \<and> b \<le> 10 \<and> c \<le> 10 \<and> unat a + unat b + unat c = 10) \<and>
   (a > 10 \<or> b > 10 \<or> c > 10 \<longrightarrow>
      validateDistribution a b c = Inl AttributeOutOfRange) \<and>
   (a \<le> 10 \<and> b \<le> 10 \<and> c \<le> 10 \<and> unat a + unat b + unat c \<noteq> 10 \<longrightarrow>
      validateDistribution a b c = Inl AttributeTotalMismatch) \<and>
   (reachable enc this s \<and> sender \<noteq> 0 \<and> nextTokenId s \<noteq> max_uint256 \<longrightarrow>
      (succeeds (mintFighter enc this sender a b c s) \<longleftrightarrow> validateDistribution a b c = Inr ()) \<and>
      (\<forall>e. validateDistribution a b c = Inl e \<longrightarrow> mintFighter enc this sender a b c s = Inl e)) \<and>
   (exists_token s t \<and> isApprovedOrOwner s sender t (owners s t) \<longrightarrow>
      (succeeds (updateAttributes enc this sender t a b c s) \<longleftrightarrow>
         validateDistribution a b c = Inr ()) \<and>
      (\<forall>e. validateDistribution a b c = Inl e \<longrightarrow>
         updateAttributes enc this sender t a b c s = Inl e))"
proof -
  have v1: "validateDistribution a b c = Inr () \<longleftrightarrow>
      a \<le> 10 \<and> b \<le> 10 \<and> c \<le> 10 \<and> unat a + unat b + unat c = 10"
    by (simp add: validateDistribution_cases word_le_nat_alt)
  have v2: "a > 10 \<or> b > 10 \<or> c > 10 \<longrightarrow>
      validateDistribution a b c = Inl AttributeOutOfRange"
    by (auto simp: validateDistribution_cases word_less_nat_alt)
  have v3: "a \<le> 10 \<and> b \<le> 10 \<and> c \<le> 10 \<and> unat a + unat b + unat c \<noteq> 10 \<longrightarrow>
      validateDistribution a b c = Inl AttributeTotalMismatch"
    by (auto simp: validateDistribution_cases word_le_nat_alt)
  have m: "(succeeds (mintFighter enc this sender a b c s) \<longleftrightarrow> validateDistribution a b c = Inr ()) \<and>
      (\<forall>e. validateDistribution a b c = Inl e \<longrightarrow> mintFighter enc this sender a b c s = Inl e)"
    if r: "reachable enc this s" and ne: "sender \<noteq> 0" "nextTokenId s \<noteq> max_uint256"
  proof (cases "validateDistribution a b c")
    case (Inl e)
    with mintFighter_invalid[OF ne(2) wf_totalMinted[OF reachable_wf[OF r]] Inl]
    show ?thesis by simp
  next
    case (Inr u)
    with mintFighter_success[OF reachable_wf[OF r] ne, of a b c enc this]
    show ?thesis by simp
  qed
  have u: "(succeeds (updateAttributes enc this sender t a b c s) \<longleftrightarrow>
         validateDistribution a b c = Inr ()) \<and>
      (\<forall>e. validateDistribution a b c = Inl e \<longrightarrow>
         updateAttributes enc this sender t a b c s = Inl e)"
    if ex: "exists_token s t" and au: "isApprovedOrOwner s sender t (owners s t)"
  proof (cases "validateDistribution a b c")
    case (Inl e)
    with updateAttributes_invalid[OF _ au Inl] ex show ?thesis
      by (simp add: exists_token_def)
  next
    case (Inr u)
    with updateAttributes_success[OF _ au, of a b c enc this] ex show ?thesis
      by (simp add: exists_token_def)
  qed
  from v1 v2 v3 m u show ?thesis by blast
qed

lemma st1_exists: "exists_token st1 1" "isApprovedOrOwner st1 alice 1 (owners st1 1)"
  by (simp_all add: exists_token_def st1_f scenario_consts)

theorem attribute_validation_witness:
  "reachable enc0 contractAddress init \<and> reachable enc0 contractAddress st1 \<and> alice \<noteq> 0 \<and>
   nextTokenId init \<noteq> max_uint256 \<and> nextTokenId st1 \<noteq> max_uint256 \<and>
   exists_token st1 1 \<and> isApprovedOrOwner st1 alice 1 (owners st1 1) \<and>
   mintFighter enc0 contractAddress alice 5 3 3 init = Inl AttributeTotalMismatch \<and>
   succeeds (mintFighter enc0 contractAddress alice 4 3 3 init) \<and>
   mintFighter enc0 contractAddress alice 11 0 0 st1 = Inl AttributeOutOfRange \<and>
   updateAttributes enc0 contractAddress alice 1 5 3 3 st1 = Inl AttributeTotalMismatch \<and>
   updateAttributes enc0 contractAddress alice 1 0 0 11 st1 = Inl AttributeOutOfRange \<and>
   succeeds (updateAttributes enc0 contractAddress alice 1 4 3 3 st1)"
proof -
  have n: "alice \<noteq> 0" "nextTokenId init \<noteq> max_uint256" "nextTokenId st1 \<noteq> max_uint256"
    by (simp_all add: st1_f scenario_consts)
  note r0 = reachable_init[of enc0 contractAddress]
  note t0 = attribute_validation[of _ _ _ enc0 contractAddress init alice]
  note t1 = attribute_validation[of _ _ _ enc0 contractAddress st1 alice 1]
  have a: "mintFighter enc0 contractAddress alice 5 3 3 init = Inl AttributeTotalMismatch"
    using t0[of 5 3 3] r0 n by simp
  have b: "succeeds (mintFighter enc0 contractAddress alice 4 3 3 init)"
    using t0[of 4 3 3] r0 n by simp
  have c: "mintFighter enc0 contractAddress alice 11 0 0 st1 = Inl AttributeOutOfRange"
    using t1[of 11 0 0] st1_reachable n by simp
  have d: "updateAttributes enc0 contractAddress alice 1 5 3 3 st1 = Inl AttributeTotalMismatch"
    using t1[of 5 3 3] st1_exists by simp
  have e: "updateAttributes enc0 contractAddress alice 1 0 0 11 st1 = Inl AttributeOutOfRange"
    using t1[of 0 0 11] st1_exists by simp
  have f: "succeeds (updateAttributes enc0 contractAddress alice 1 4 3 3 st1)"
    using t1[of 4 3 3] st1_exists by simp
  from a b c d e f r0 st1_reachable n st1_exists show ?thesis by blast
qed

section \<open>The ownership index (claims C2, C6, C10)\<close>

text \<open>
  Claim C2. In every state reachable by successful calls, the stored position of every
  existing token is its index in the array of its owner, the token occurs exactly once
  in that array and in no other array. In particular this holds again after any
  successful transfer out of such a state, also when the token removed is not the last
  of its array and the last one is swapped into its slot.
\<close>

theorem owned_index_synced:
  assumes "reachable enc this s"
  shows "(\<forall>t. exists_token s t \<longrightarrow> position_synced s t) \<and>
         (\<forall>sender from to u s'. transfer sender from to u s = Inr s' \<longrightarrow>
            (\<forall>t. exists_token s' t \<longrightarrow> position_synced s' t))"
  using reachable_wf[OF assms] by (blast intro: wf_position_synced wf_transfer)

theorem owned_index_synced_witness:
  "reachable enc0 contractAddress st5 \<and>
   ownedTokensIndex st5 1 \<noteq> length (ownedTokens st5 alice) - 1 \<and>
   transfer alice alice bob 1 st5 = Inr st6 \<and>
   exists_token st5 3 \<and> position_synced st5 3 \<and>
   exists_token st6 3 \<and> position_synced st6 3 \<and>
   fightersOf st5 alice = [1, 2, 3] \<and> fightersOf st6 alice = [3, 2] \<and>
   ownedTokensIndex st6 3 = 0 \<and> ownedTokensIndex st6 2 = 1"
proof -
  have e5: "exists_token st5 3" and e6: "exists_token st6 3"
    by (simp_all add: exists_token_def scenario)
  from owned_index_synced[OF st5_reachable] e5 e6 st6_transfer
  have "position_synced st5 3 \<and> position_synced st6 3" by blast
  with e5 e6 st5_reachable st6_transfer show ?thesis
    by (simp add: fightersOf_def scenario swap_remove_def)
qed

text \<open>
  Claim C6. In every reachable state the length of \<open>fightersOf owner\<close> is the number of
  existing tokens whose owner is \<open>owner\<close>, and these lengths, summed over all addresses,
  give \<open>totalSupply\<close>.
\<close>

theorem conservation:
  assumes "reachable enc this s"
  shows "length (fightersOf s owner) = card {t. exists_token s t \<and> owners s t = owner} \<and>
         (\<Sum>a\<in>UNIV. length (fightersOf s a)) = totalSupply s"
proof -
  note wf = reachable_wf[OF assms]
  let ?E = "{t. owners s t \<noteq> 0}"
  have fin: "finite ?E" by (simp add: wf_existing_tokens[OF wf])
  have "(\<Sum>a\<in>UNIV. length (fightersOf s a)) = (\<Sum>a\<in>UNIV. \<Sum>t | t \<in> ?E \<and> owners s t = a. 1)"
    by (simp add: fightersOf_def wf_owned_card[OF wf])
  also have "\<dots> = (\<Sum>t\<in>?E. 1)"
    by (rule sum.group[OF fin]) auto
  also have "\<dots> = nextTokenId s - 1"
    by (simp add: wf_existing_tokens[OF wf])
  also have "\<dots> = totalSupply s"
    using wf by (simp add: totalSupply_def wf_state_def)
  finally have "(\<Sum>a\<in>UNIV. length (fightersOf s a)) = totalSupply s" .
  moreover have "length (fightersOf s owner) = card {t. exists_token s t \<and> owners s t = owner}"
    using wf_owned_card[OF wf, of owner] by (simp add: fightersOf_def exists_token_def)
  ultimately show ?thesis by simp
qed

theorem conservation_witness:
  "reachable enc0 contractAddress st6 \<and>
   length (fightersOf st6 alice) = card {t. exists_token st6 t \<and> owners st6 t = alice} \<and>
   (\<Sum>a\<in>UNIV. length (fightersOf st6 a)) = totalSupply st6 \<and>
   fightersOf st6 alice = [3, 2] \<and> fightersOf st6 bob = [1] \<and> totalSupply st6 = 3"
  using conservation[OF st6_reachable, of alice] st6_reachable
  by (simp add: fightersOf_def totalSupply_def scenario swap_remove_def)

text \<open>
  Claim C10. In every reachable state the stored balance of every address is the length
  of its array of owned tokens, so \<open>balanceOf\<close> (which rejects \<open>address(0)\<close>) returns the
  length of \<open>fightersOf\<close>.
\<close>

theorem balance_is_owned_length:
  assumes "reachable enc this s"
  shows "balances s owner = length (fightersOf s owner) \<and>
         (owner \<noteq> 0 \<longrightarrow> balanceOf s owner = Inr (length (fightersOf s owner)))"
  using reachable_wf[OF assms] by (simp add: wf_state_def fightersOf_def balanceOf_def)

theorem balance_is_owned_length_witness:
  "reachable enc0 contractAddress st6 \<and> alice \<noteq> 0 \<and>
   balances st6 alice = length (fightersOf st6 alice) \<and>
   balanceOf st6 alice = Inr (length (fightersOf st6 alice)) \<and>
   fightersOf st6 alice = [3, 2]"
  using balance_is_owned_length[OF st6_reachable, of alice] st6_reachable
  by (simp add: fightersOf_def scenario swap_remove_def)

section \<open>Transfers (claims C3, C9)\<close>

text \<open>
  Claim C3, amended. After every successful \<open>transferFrom\<close> of token \<open>t\<close> from \<open>from\<close> to
  \<open>to\<close> out of a reachable state, that is, once \<open>_transfer\<close> has returned: \<open>to\<close> is
  granted on the three current handles of \<open>t\<close>, whether or not \<open>allowViewer\<close> was ever
  called for it; \<open>ownerOf t\<close> is \<open>to\<close>; the approval of \<open>t\<close> is cleared; \<open>fightersOf to\<close>
  holds \<open>t\<close> exactly once; and, when \<open>from\<close> and \<open>to\<close> differ, \<open>fightersOf from\<close> no
  longer holds \<open>t\<close>. (\<open>safeTransferFrom\<close> runs the same \<open>_transfer\<close> and then calls the
  receiver, which may approve or transfer the token again before the call ends; the
  statement is about the storage before that hook.)
\<close>

theorem transfer_effects:
  assumes "reachable enc this s"
    and "transferFrom sender from to t s = Inr s'"
  shows "canRead s' (agility (fighterAttributes s' t)) to \<and>
         canRead s' (strength (fighterAttributes s' t)) to \<and>
         canRead s' (stamina (fighterAttributes s' t)) to \<and>
         ownerOf s' t = Inr to \<and> getApproved s' t = Inr 0 \<and>
         count_list (fightersOf s' to) t = 1 \<and>
         (from \<noteq> to \<longrightarrow> t \<notin> set (fightersOf s' from))"
proof -
  from assms(2) have "transfer sender from to t s = Inr s'"
    by (simp add: transferFrom_def)
  from transfer_effects_aux[OF reachable_wf[OF assms(1)] this] show ?thesis .
qed

theorem transfer_effects_witness:
  "reachable enc0 contractAddress st5 \<and> transferFrom alice alice bob 1 st5 = Inr st6 \<and>
   alice \<noteq> bob \<and>
   canRead st6 (agility (fighterAttributes st6 1)) bob \<and>
   canRead st6 (strength (fighterAttributes st6 1)) bob \<and>
   canRead st6 (stamina (fighterAttributes st6 1)) bob \<and>
   ownerOf st6 1 = Inr bob \<and> getApproved st6 1 = Inr 0 \<and>
   count_list (fightersOf st6 bob) 1 = 1 \<and> 1 \<notin> set (fightersOf st6 alice)"
proof -
  have tr: "transferFrom alice alice bob 1 st5 = Inr st6"
    by (simp only: transferFrom_def st6_transfer)
  from transfer_effects[OF st5_reachable tr] alice_neq_bob st5_reachable tr
  show ?thesis by blast
qed

text \<open>
  Claim C3 as stated fails for a transfer of a token to its own owner: the call
  succeeds, and the array of the sender still holds the token.
\<close>

theorem transfer_self_keeps_token_counterexample:
  "reachable enc0 contractAddress st1 \<and>
   transferFrom alice alice alice 1 st1 = Inr st1_self \<and>
   1 \<in> set (fightersOf st1_self alice)"
proof -
  have tr: "transfer alice alice alice 1 st1 = Inr st1_self"
    using st1_self_transfer by (simp only: transferFrom_def)
  from transfer_fields(12)[OF reachable_wf[OF st1_reachable] tr]
  have "1 \<in> set (fightersOf st1_self alice)"
    by (simp add: fightersOf_def st1_f scenario_consts)
  with st1_reachable st1_self_transfer show ?thesis by (intro conjI)
qed

text \<open>
  Claim C9. A transfer of token \<open>t\<close> from its owner to the same owner, by an authorised
  sender in a reachable state, succeeds; the new state is the old one with the approval
  of \<open>t\<close> cleared and the owner granted on the current handles of \<open>t\<close>. The arrays of
  owned tokens, the stored positions, the owners, the balances and everything else are
  unchanged.
\<close>

theorem self_transfer:
  assumes "reachable enc this s" "exists_token s t" "owners s t = a"
    "isApprovedOrOwner s sender t a"
  shows "transferFrom sender a a t s =
           Inr (s\<lparr> tokenApprovals := (tokenApprovals s)(t := 0),
                   acl := acl s \<union> currentHandles s t \<times> {a} \<rparr>) \<and>
         (\<forall>s'. transferFrom sender a a t s = Inr s' \<longrightarrow>
            fightersOf s' = fightersOf s \<and> ownedTokensIndex s' = ownedTokensIndex s \<and>
            ownerOf s' t = ownerOf s t \<and> owners s' = owners s \<and> balances s' = balances s \<and>
            totalSupply s' = totalSupply s \<and> nextTokenId s' = nextTokenId s \<and>
            operatorApprovals s' = operatorApprovals s \<and>
            fighterAttributes s' = fighterAttributes s \<and>
            (\<forall>u. u \<noteq> t \<longrightarrow> tokenApprovals s' u = tokenApprovals s u) \<and>
            getApproved s' t = Inr 0 \<and>
            acl s' = acl s \<union> currentHandles s t \<times> {a})"
proof -
  note wf = reachable_wf[OF assms(1)]
  from assms(2,3) have a0: "a \<noteq> 0" by (auto simp: exists_token_def)
  from transfer_success[OF wf assms(3) a0 a0 assms(4)]
  have tr: "transfer sender a a t s = Inr (call (transfer sender a a t) s)" .
  from transfer_self_eq[OF wf tr] tr
  have eq: "transferFrom sender a a t s =
           Inr (s\<lparr> tokenApprovals := (tokenApprovals s)(t := 0),
                   acl := acl s \<union> currentHandles s t \<times> {a} \<rparr>)"
    by (simp add: transferFrom_def)
  have "fightersOf s' = fightersOf s \<and> ownedTokensIndex s' = ownedTokensIndex s \<and>
            ownerOf s' t = ownerOf s t \<and> owners s' = owners s \<and> balances s' = balances s \<and>
            totalSupply s' = totalSupply s \<and> nextTokenId s' = nextTokenId s \<and>
            operatorApprovals s' = operatorApprovals s \<and>
            fighterAttributes s' = fighterAttributes s \<and>
            (\<forall>u. u \<noteq> t \<longrightarrow> tokenApprovals s' u = tokenApprovals s u) \<and>
            getApproved s' t = Inr 0 \<and>
            acl s' = acl s \<union> currentHandles s t \<times> {a}"
    if "transferFrom sender a a t s = Inr s'" for s'
  proof -
    from that eq have s': "s' = s\<lparr> tokenApprovals := (tokenApprovals s)(t := 0),
                   acl := acl s \<union> currentHandles s t \<times> {a} \<rparr>" by simp
    from assms(2) show ?thesis
      by (simp add: s' fightersOf_def ownerOf_def totalSupply_def getApproved_def
          exists_token_def fun_eq_iff)
  qed
  with eq show ?thesis by blast
qed

theorem self_transfer_witness:
  "reachable enc0 contractAddress st5a \<and> exists_token st5a 1 \<and> owners st5a 1 = alice \<and>
   isApprovedOrOwner st5a bob 1 alice \<and> bob \<noteq> alice \<and>
   transferFrom bob alice alice 1 st5a = Inr st5b \<and>
   st5b = st5a\<lparr> tokenApprovals := (tokenApprovals st5a)(1 := 0),
                 acl := acl st5a \<union> currentHandles st5a 1 \<times> {alice} \<rparr> \<and>
   getApproved st5a 1 = Inr bob \<and> getApproved st5b 1 = Inr 0 \<and>
   fightersOf st5a alice = [1, 2, 3] \<and> fightersOf st5b alice = [1, 2, 3] \<and>
   ownedTokensIndex st5a 1 = 0 \<and> ownedTokensIndex st5b 1 = 0 \<and>
   balances st5a alice = 3 \<and> balances st5b alice = 3 \<and>
   ownerOf st5b 1 = Inr alice"
proof -
  have h: "exists_token st5a 1" "owners st5a 1 = alice" "isApprovedOrOwner st5a bob 1 alice"
    by (simp_all add: exists_token_def st5a_eq st5_f st4_f st3_f st2_f st1_f scenario_consts)
  have n: "bob \<noteq> alice" by (simp add: alice_def bob_def)
  have "transferFrom bob alice alice 1 st5a =
          Inr (st5a\<lparr> tokenApprovals := (tokenApprovals st5a)(1 := 0),
                      acl := acl st5a \<union> currentHandles st5a 1 \<times> {alice} \<rparr>)"
    by (rule conjunct1[OF self_transfer[OF st5a_reachable h]])
  then have eq: "st5b = st5a\<lparr> tokenApprovals := (tokenApprovals st5a)(1 := 0),
                     acl := acl st5a \<union> currentHandles st5a 1 \<times> {alice} \<rparr>"
    by (simp only: st5b_transfer sum.inject)
  have a: "getApproved st5a 1 = Inr bob" "fightersOf st5a alice = [1, 2, 3]"
    "ownedTokensIndex st5a 1 = 0" "balances st5a alice = 3"
    by (simp_all add: getApproved_def exists_token_def fightersOf_def st5a_eq
        st5_f st4_f st3_f st2_f st1_f scenario_consts)
  have b: "getApproved st5b 1 = Inr 0" "fightersOf st5b alice = [1, 2, 3]"
    "ownedTokensIndex st5b 1 = 0" "balances st5b alice = 3" "ownerOf st5b 1 = Inr alice"
    by (simp_all add: eq getApproved_def ownerOf_def exists_token_def fightersOf_def st5a_eq
        st5_f st4_f st3_f st2_f st1_f scenario_consts)
  from st5a_reachable h n st5b_transfer eq a b show ?thesis by (intro conjI)
qed

section \<open>Grants (claims C4, C7)\<close>




text \<open>
  Claim C7. \<open>allowViewer\<close> checks, in this order: the token exists, else
  \<open>FighterDoesNotExist\<close>; the viewer is not \<open>address(0)\<close>, else \<open>InvalidAddress\<close>; the
  sender is the owner, the approved address or an operator of the owner, else
  \<open>NotAuthorized\<close>. A null viewer or an unauthorised sender never succeeds. A successful
  call adds the grants of the viewer on the three current handles to the access-control
  list and changes nothing else.
\<close>

theorem allowViewer_spec:
  "(\<not> exists_token s t \<longrightarrow> allowViewer sender t v s = Inl (FighterDoesNotExist t)) \<and>
   (exists_token s t \<and> v = 0 \<longrightarrow> allowViewer sender t v s = Inl InvalidAddress) \<and>
   (exists_token s t \<and> v \<noteq> 0 \<and> sender \<noteq> owners s t \<and> tokenApprovals s t \<noteq> sender \<and>
      \<not> operatorApprovals s (owners s t) sender \<longrightarrow>
      allowViewer sender t v s = Inl NotAuthorized) \<and>
   (v = 0 \<or> (sender \<noteq> owners s t \<and> tokenApprovals s t \<noteq> sender \<and>
      \<not> operatorApprovals s (owners s t) sender) \<longrightarrow>
      \<not> succeeds (allowViewer sender t v s)) \<and>
   (exists_token s t \<and> v \<noteq> 0 \<and> (sender = owners s t \<or> tokenApprovals s t = sender \<or>
      operatorApprovals s (owners s t) sender) \<longrightarrow>
      succeeds (allowViewer sender t v s)) \<and>
   (\<forall>s'. allowViewer sender t v s = Inr s' \<longrightarrow>
      s' = s\<lparr> acl := acl s \<union> currentHandles s t \<times> {v} \<rparr>)"
proof -
  have 1: "\<not> exists_token s t \<longrightarrow> allowViewer sender t v s = Inl (FighterDoesNotExist t)"
    by (simp add: allowViewer_def)
  have 2: "exists_token s t \<and> v = 0 \<longrightarrow> allowViewer sender t v s = Inl InvalidAddress"
    by (simp add: allowViewer_def)
  have 3: "exists_token s t \<and> v \<noteq> 0 \<and> sender \<noteq> owners s t \<and> tokenApprovals s t \<noteq> sender \<and>
      \<not> operatorApprovals s (owners s t) sender \<longrightarrow>
      allowViewer sender t v s = Inl NotAuthorized"
    by (auto simp: allowViewer_def Let_def isApprovedOrOwner_def)
  have 4: "v = 0 \<or> (sender \<noteq> owners s t \<and> tokenApprovals s t \<noteq> sender \<and>
      \<not> operatorApprovals s (owners s t) sender) \<longrightarrow>
      \<not> succeeds (allowViewer sender t v s)"
    by (auto simp: allowViewer_def Let_def isApprovedOrOwner_def)
  have 5: "exists_token s t \<and> v \<noteq> 0 \<and> (sender = owners s t \<or> tokenApprovals s t = sender \<or>
      operatorApprovals s (owners s t) sender) \<longrightarrow>
      succeeds (allowViewer sender t v s)"
    by (auto simp: allowViewer_def Let_def isApprovedOrOwner_def)
  have 6: "s' = s\<lparr> acl := acl s \<union> currentHandles s t \<times> {v} \<rparr>"
    if "allowViewer sender t v s = Inr s'" for s'
    using allowViewer_fields(4-13)[OF that]
    by (intro state_eqI) (simp_all add: currentHandles_times)
  from 1 2 3 4 5 6 show ?thesis by blast
qed

theorem allowViewer_spec_witness:
  "\<not> exists_token st1 7 \<and> allowViewer alice 7 bob st1 = Inl (FighterDoesNotExist 7) \<and>
   exists_token st1 1 \<and> allowViewer alice 1 0 st1 = Inl InvalidAddress \<and>
   bob \<noteq> 0 \<and> bob \<noteq> owners st1 1 \<and> tokenApprovals st1 1 \<noteq> bob \<and>
   \<not> operatorApprovals st1 (owners st1 1) bob \<and>
   allowViewer bob 1 bob st1 = Inl NotAuthorized \<and>
   alice = owners st1 1 \<and> allowViewer alice 1 bob st1 = Inr st2 \<and>
   st2 = st1\<lparr> acl := acl st1 \<union> currentHandles st1 1 \<times> {bob} \<rparr>"
proof -
  have f: "\<not> exists_token st1 7" "exists_token st1 1" "bob \<noteq> 0" "bob \<noteq> owners st1 1"
    "tokenApprovals st1 1 \<noteq> bob" "\<not> operatorApprovals st1 (owners st1 1) bob"
    "alice = owners st1 1"
    by (simp_all add: exists_token_def st1_f scenario_consts)
  from allowViewer_spec[of st1 7 alice bob] f
  have a: "allowViewer alice 7 bob st1 = Inl (FighterDoesNotExist 7)" by blast
  from allowViewer_spec[of st1 1 alice 0] f
  have b: "allowViewer alice 1 0 st1 = Inl InvalidAddress" by blast
  from allowViewer_spec[of st1 1 bob bob] f
  have c: "allowViewer bob 1 bob st1 = Inl NotAuthorized" by blast
  from allowViewer_spec[of st1 1 alice bob] st2_allowViewer
  have d: "st2 = st1\<lparr> acl := acl st1 \<union> currentHandles st1 1 \<times> {bob} \<rparr>" by blast
  from a b c d f st2_allowViewer show ?thesis by blast
qed

section \<open>Minting (claims C5, C8)\<close>

text \<open>
  Claim C5. A \<open>mintFighter\<close> that fails, called in a reachable state by a sender other
  than \<open>address(0)\<close> before the id counter reaches \<open>2 ^ 256 - 1\<close>, fails with
  \<open>AttributeOutOfRange\<close> or \<open>AttributeTotalMismatch\<close>; and a failed \<open>mintFighter\<close>
  leaves the whole storage as it was: total supply, next token id, owners, balances,
  arrays of owned tokens and grants.
\<close>

theorem mintFighter_failure:
  assumes "mintFighter enc this sender a b c s = Inl e"
  shows "(reachable enc this s \<and> sender \<noteq> 0 \<and> nextTokenId s \<noteq> max_uint256 \<longrightarrow>
            e = AttributeOutOfRange \<or> e = AttributeTotalMismatch) \<and>
         call_returning (mintFighter enc this sender a b c) s = s"
proof -
  have "e = AttributeOutOfRange \<or> e = AttributeTotalMismatch"
    if r: "reachable enc this s" and ne: "sender \<noteq> 0" "nextTokenId s \<noteq> max_uint256"
  proof -
    note wf = reachable_wf[OF r]
    from wf have "owners s (nextTokenId s) = 0" "totalMinted s \<noteq> max_uint256"
      by (auto simp: wf_state_def)
    moreover from owned_length_bound[OF wf, of sender] wf
    have "balances s sender \<noteq> max_uint256" by (auto simp: wf_state_def)
    ultimately show ?thesis using mintFighter_error_cases[OF assms] ne by auto
  qed
  moreover from assms have "call_returning (mintFighter enc this sender a b c) s = s"
    by (simp add: call_returning_def)
  ultimately show ?thesis by blast
qed

theorem mintFighter_failure_witness:
  "mintFighter enc0 contractAddress bob 5 3 3 st6 = Inl AttributeTotalMismatch \<and>
   reachable enc0 contractAddress st6 \<and> bob \<noteq> 0 \<and> nextTokenId st6 \<noteq> max_uint256 \<and>
   call_returning (mintFighter enc0 contractAddress bob 5 3 3) st6 = st6"
proof -
  have n: "bob \<noteq> 0" "nextTokenId st6 \<noteq> max_uint256" "totalMinted st6 \<noteq> max_uint256"
    by (simp_all add: scenario)
  have v: "validateDistribution 5 3 3 = Inl AttributeTotalMismatch"
    by (simp add: validateDistribution_cases)
  have m: "mintFighter enc0 contractAddress bob 5 3 3 st6 = Inl AttributeTotalMismatch"
    by (rule mintFighter_invalid[OF n(2,3) v])
  from mintFighter_failure[OF m] m st6_reachable n show ?thesis by blast
qed

text \<open>
  Claim C8. The id counter starts at 1; a successful \<open>mintFighter\<close> returns the counter
  and increments it; no call decreases it; so of two successful mints the later one
  returns the larger id. In a reachable state the next id is the total supply plus one
  and belongs to no existing token, and \<open>mintFighter\<close> never fails with
  \<open>TokenAlreadyMinted\<close>.
\<close>

theorem token_ids_increase:
  "nextTokenId init = 1 \<and>
   (mintFighter enc this sender a b c s = Inr (tid, s') \<longrightarrow>
      tid = nextTokenId s \<and> nextTokenId s' = tid + 1) \<and>
   (step enc this s s' \<longrightarrow> nextTokenId s \<le> nextTokenId s') \<and>
   (mintFighter enc this sender a b c s = Inr (tid, s1) \<and> steps enc this s1 s2 \<and>
    mintFighter enc this sender2 a2 b2 c2 s2 = Inr (tid2, s3) \<longrightarrow> tid < tid2) \<and>
   (reachable enc this s \<longrightarrow>
      \<not> exists_token s (nextTokenId s) \<and>
      (\<forall>x. mintFighter enc this sender a b c s \<noteq> Inl (TokenAlreadyMinted x)) \<and>
      (mintFighter enc this sender a b c s = Inr (tid, s') \<longrightarrow>
         tid = totalSupply s + 1 \<and> \<not> exists_token s tid \<and> exists_token s' tid))"
proof -
  have 1: "nextTokenId init = 1" by (simp add: init_def)
  have 2: "tid = nextTokenId s \<and> nextTokenId s' = tid + 1"
    if "mintFighter enc this sender a b c s = Inr (tid, s')"
    using mintFighter_fields(1,6)[OF that] by simp
  have 3: "step enc this s s' \<longrightarrow> nextTokenId s \<le> nextTokenId s'"
    by (auto dest: step_nextTokenId)
  have 4: "tid < tid2"
    if m1: "mintFighter enc this sender a b c s = Inr (tid, s1)"
      and st: "steps enc this s1 s2"
      and m2: "mintFighter enc this sender2 a2 b2 c2 s2 = Inr (tid2, s3)"
  proof -
    from mintFighter_fields(1,6)[OF m1] have "tid < nextTokenId s1" by simp
    also from steps_nextTokenId[OF st] have "nextTokenId s1 \<le> nextTokenId s2" .
    also from mintFighter_fields(1)[OF m2] have "nextTokenId s2 = tid2" by simp
    finally show ?thesis .
  qed
  have 5: "\<not> exists_token s (nextTokenId s) \<and>
      (\<forall>x. mintFighter enc this sender a b c s \<noteq> Inl (TokenAlreadyMinted x)) \<and>
      (mintFighter enc this sender a b c s = Inr (tid, s') \<longrightarrow>
         tid = totalSupply s + 1 \<and> \<not> exists_token s tid \<and> exists_token s' tid)"
    if r: "reachable enc this s"
  proof -
    note wf = reachable_wf[OF r]
    from wf have n: "owners s (nextTokenId s) = 0" and t: "nextTokenId s = totalSupply s + 1"
      by (auto simp: wf_state_def totalSupply_def)
    have "mintFighter enc this sender a b c s \<noteq> Inl (TokenAlreadyMinted x)" for x
      using mintFighter_error_cases[of enc this sender a b c s "TokenAlreadyMinted x"] n
      by auto
    moreover have "tid = totalSupply s + 1 \<and> \<not> exists_token s tid \<and> exists_token s' tid"
      if m: "mintFighter enc this sender a b c s = Inr (tid, s')"
      using mintFighter_fields(1,2,8)[OF m] n t by (simp add: exists_token_def)
    ultimately show ?thesis using n by (simp add: exists_token_def)
  qed
  from 1 2 3 4 5 show ?thesis by blast
qed

theorem token_ids_increase_witness:
  "mintFighter enc0 contractAddress alice 3 4 3 init = Inr (1, st1) \<and>
   1 = nextTokenId init \<and> nextTokenId st1 = 1 + 1 \<and>
   step enc0 contractAddress init st1 \<and> nextTokenId init \<le> nextTokenId st1 \<and>
   steps enc0 contractAddress st1 st3 \<and>
   mintFighter enc0 contractAddress alice 4 3 3 st3 = Inr (2, st4) \<and> (1::nat) < 2 \<and>
   reachable enc0 contractAddress st3 \<and> \<not> exists_token st3 (nextTokenId st3) \<and>
   2 = totalSupply st3 + 1 \<and> \<not> exists_token st3 2 \<and> exists_token st4 2"
proof -
  note t0 = token_ids_increase[of enc0 contractAddress alice 3 4 3 init 1 st1 st1 st3 alice 4 3 3 2 st4]
  note t3 = token_ids_increase[of enc0 contractAddress alice 4 3 3 st3 2 st4]
  from t0 st1_mint have a: "1 = nextTokenId init" "nextTokenId st1 = 1 + 1" by blast+
  have s: "step enc0 contractAddress init st1" by (rule step_mintFighter[OF st1_mint])
  with t0 have b: "nextTokenId init \<le> nextTokenId st1" by blast
  from t0 st1_mint st1_st3_steps st4_mint have c: "(1::nat) < 2" by blast
  from t3 st3_reachable st4_mint
  have d: "\<not> exists_token st3 (nextTokenId st3)" "2 = totalSupply st3 + 1"
    "\<not> exists_token st3 2" "exists_token st4 2" by blast+
  from st1_mint a s b st1_st3_steps st4_mint c st3_reachable d show ?thesis by (intro conjI)
qed

end
